theory Spec2Isabelle
  imports Main
begin

section \<open>The runtime client as the monitor sees it\<close>

text \<open>
  The monitor package drives containerd through its client. The client, its containers
  and their tasks are external: the model gives each of them as a record holding the
  answer of every call the monitor makes on it, so a theorem over all records is a
  theorem over every way the runtime can answer. A call returns an error or a value
  (\<open>Inl\<close> the error).
\<close>

datatype error = ErrNotFound | ErrOther string

type_synonym ProcessStatus = string

text \<open>
  Modelled from the spec: the values of containerd.Running and containerd.Stopped, which
  containerd declares and this repository only uses; section 6 of the spec gives the
  recognised label values as running, stopped and delete. DeleteStatus and StatusLabel
  are the constants of the monitor package.
\<close>

definition Running :: ProcessStatus where
  "Running = ''running''"

definition Stopped :: ProcessStatus where
  "Stopped = ''stopped''"

definition DeleteStatus :: ProcessStatus where
  "DeleteStatus = ''delete''"

definition StatusLabel :: string where
  "StatusLabel = ''io.boss/restart.status''"

datatype signal = SIGTERM | SIGKILL

text \<open>
  A task answers \<open>Status\<close>, \<open>Wait\<close> and \<open>Kill\<close>. \<open>Wait\<close> returns the exit channel; the
  model gives the channel as the time, a time.Duration in nanoseconds from the moment
  the caller starts to receive from it, at which the exit status arrives (\<open>None\<close>: the
  task never exits), and \<open>exit_wins_tie\<close> says which case a \<open>select\<close> takes when the exit
  and a timer are ready at the same instant.
\<close>

record task =
  Status :: "error + ProcessStatus"
  Wait :: "error + int option"
  Kill :: "signal \<Rightarrow> error option"
  exit_wins_tie :: bool

record container =
  c_ID :: string
  c_Labels :: "error + (string \<rightharpoonup> string)"
  c_Task :: "error + task"

record client =
  NamespaceList :: "error + string list"
  Containers :: "string \<Rightarrow> error + container list"

section \<open>The reconciler: isSameStatus and monitor\<close>

text \<open>Reading a Go map at a missing key gives the zero value, the empty string.\<close>

definition map_index :: "(string \<rightharpoonup> string) \<Rightarrow> string \<Rightarrow> string" where
  "map_index m k = (case m k of None \<Rightarrow> [] | Some v \<Rightarrow> v)"

definition isSameStatus :: "ProcessStatus \<Rightarrow> container \<Rightarrow> bool" where
  "isSameStatus desired c =
     (case c_Task c of
        Inl err \<Rightarrow> desired = Stopped
      | Inr task \<Rightarrow>
          (case Status task of
             Inl err \<Rightarrow> desired = Stopped
           | Inr status \<Rightarrow> desired = status))"

text \<open>
  The three change types each hold their container (and the monitor, which is the same
  for all and is left out).
\<close>

datatype change = startChange container | stopChange container | deleteChange container

fun change_container :: "change \<Rightarrow> container" where
  "change_container (startChange c) = c"
| "change_container (stopChange c) = c"
| "change_container (deleteChange c) = c"

text \<open>The body of the loop of \<open>monitor\<close>: one container, the changes so far.\<close>

definition monitor_step :: "change list \<Rightarrow> container \<Rightarrow> change list" where
  "monitor_step changes c =
     (case c_Labels c of
        Inl err \<Rightarrow> changes
      | Inr labels \<Rightarrow>
          (let desiredStatus = map_index labels StatusLabel in
           if isSameStatus desiredStatus c then changes
           else if desiredStatus = Running then changes @ [startChange c]
           else if desiredStatus = Stopped then changes @ [stopChange c]
           else if desiredStatus = DeleteStatus then changes @ [deleteChange c]
           else changes))"

definition monitor :: "client \<Rightarrow> string \<Rightarrow> error + change list" where
  "monitor cl name =
     (case Containers cl name of
        Inl err \<Rightarrow> Inl err
      | Inr containers \<Rightarrow> Inr (foldl monitor_step [] containers))"

text \<open>
  The spec's ActualStatus, which the code never computes on its own: the status of the
  container's task, and Stopped when the task or its status cannot be read.
\<close>

definition ActualStatus :: "container \<Rightarrow> ProcessStatus" where
  "ActualStatus c =
     (case c_Task c of
        Inl err \<Rightarrow> Stopped
      | Inr task \<Rightarrow> (case Status task of Inl err \<Rightarrow> Stopped | Inr status \<Rightarrow> status))"

text \<open>The changes of a list that are about one container.\<close>

definition changes_for :: "container \<Rightarrow> change list \<Rightarrow> change list" where
  "changes_for c changes = filter (\<lambda>ch. change_container ch = c) changes"

section \<open>The config package: toStrings and WithBossConfig\<close>

text \<open>A Go panic is a result of its own, apart from a returned error.\<close>

datatype panic = IndexOutOfRange nat nat | CloseOfClosedChannel

text \<open>
  Indexing a slice: \<open>xs[i]\<close> panics with "index out of range [i] with length n" when
  \<open>i\<close> is not below the length.
\<close>

definition slice_index :: "'a list \<Rightarrow> nat \<Rightarrow> panic + 'a" where
  "slice_index xs i =
     (if i < length xs then Inr (xs ! i) else Inl (IndexOutOfRange i (length xs)))"

text \<open>
  The Go library's strings.Index and strings.SplitN(s, sep, 2), for a separator of one
  byte: SplitN cuts \<open>s\<close> at the first separator into the part before it and the part
  after it, and returns \<open>s\<close> alone when there is no separator.
\<close>

fun Index :: "string \<Rightarrow> char \<Rightarrow> nat option" where
  "Index [] sep = None"
| "Index (c # s) sep = (if c = sep then Some 0 else map_option Suc (Index s sep))"

definition SplitN2 :: "string \<Rightarrow> char \<Rightarrow> string list" where
  "SplitN2 s sep =
     (case Index s sep of None \<Rightarrow> [s] | Some m \<Rightarrow> [take m s, drop (m + 1) s])"

fun toStrings_loop ::
  "string list \<Rightarrow> (string \<rightharpoonup> string) \<Rightarrow> panic + (string \<rightharpoonup> string)" where
  "toStrings_loop [] m = Inr m"
| "toStrings_loop (s # ss) m =
     (let parts = SplitN2 s CHR ''=''
      in case slice_index parts 0 of
           Inl p \<Rightarrow> Inl p
         | Inr k \<Rightarrow>
             (case slice_index parts 1 of
                Inl p \<Rightarrow> Inl p
              | Inr v \<Rightarrow> toStrings_loop ss (m(k \<mapsto> v))))"

definition toStrings :: "string list \<Rightarrow> panic + (string \<rightharpoonup> string)" where
  "toStrings ss = toStrings_loop ss Map.empty"

text \<open>
  The configuration of a container. Resources, GPUs, Mounts and Services only feed the
  runtime spec and the service registry and are left out.
\<close>

record Container =
  ID :: string
  Image :: string
  Env :: "string list"
  Args :: "string list"
  Labels :: "string list"
  Network :: string

definition Extension :: string where
  "Extension = ''io.boss/container''"

text \<open>
  containerd's record of the container being created, as far as WithBossConfig writes
  it: its labels and its extensions.
\<close>

record containers_Container =
  cc_Labels :: "string \<rightharpoonup> string"
  cc_Extensions :: "string \<rightharpoonup> Container"

text \<open>
  The two containerd options that can fail are given by their results:
  \<open>WithNewSpec\<close> is the result of generating the spec from \<open>config.specOpt(image)\<close>,
  \<open>WithContainerExtension\<close> that of marshalling the configuration into the extension.
  containerd.WithContainerLabels stores the labels and returns no error.
\<close>

record opts_env =
  WithNewSpec :: "error option"
  WithContainerExtension :: "error option"

text \<open>
  The option WithBossConfig returns, applied to the container being created: it
  returns an error or nil together with the container, or panics.
\<close>

definition WithBossConfig ::
  "Container \<Rightarrow> opts_env \<Rightarrow> containers_Container \<Rightarrow>
     panic + (error option \<times> containers_Container)" where
  "WithBossConfig config env c =
     (case WithNewSpec env of
        Some err \<Rightarrow> Inr (Some err, c)
      | None \<Rightarrow>
          (case toStrings (Labels config) of
             Inl p \<Rightarrow> Inl p
           | Inr labels \<Rightarrow>
               (let c1 = c\<lparr>cc_Labels := labels\<rparr>
                in case WithContainerExtension env of
                     Some err \<Rightarrow> Inr (Some err, c1)
                   | None \<Rightarrow>
                       Inr (None, c1\<lparr>cc_Extensions := (cc_Extensions c1)(Extension \<mapsto> config)\<rparr>))))"

section \<open>The Monitor: Stop, Shutdown and Run\<close>

text \<open>
  What a call does to the world outside the Monitor is kept as a trace of events, in the
  order of the calling goroutine. A goroutine started with \<open>go\<close> is one event that holds
  the goroutine's own actions in their order; they run beside whatever follows, up to
  the \<open>wg.Wait()\<close> that waits for them. Reading the runtime (listing, loading a task,
  reading labels or a status) and logging change nothing and are not events.
\<close>

datatype action =
    ActKill signal
  | ActExit int
  | ActTimeout int
  | ActDelete
  | ActDone

datatype event =
    EvSleep int
  | EvLock
  | EvUnlock
  | EvClose
  | EvApply string change
  | EvGo string "action list"
  | EvWgWait

text \<open>
  Of the Monitor's fields, \<open>client\<close>, \<open>register\<close> and \<open>networks\<close> never change; the state
  is the mutex \<open>mu\<close> and the channel \<open>shutdownCh\<close>. Nothing is ever sent on the channel,
  so all there is to know of it is whether it has been closed. \<open>trace\<close> is the record of
  events and not a field of the source.
\<close>

record monitor_state =
  shutdownCh_closed :: bool
  mu_locked :: bool
  trace :: "event list"

text \<open>
  A call returns, panics, or never returns because it waits in \<open>Lock\<close> or \<open>wg.Wait\<close> for
  something no goroutine will do (\<open>Blocked\<close>). Each holds the state the call leaves.

  The calls are modelled one at a time. Between two calls the mutex is held only if a
  call ended without releasing it, so that no goroutine is left to release it: \<open>Lock\<close>
  on a held mutex then never returns. (A \<open>Lock\<close> that waits for a reconcile pass in
  flight is the same call made after that pass.)
\<close>

datatype 'a outcome =
    Returned 'a
  | Panicked panic monitor_state
  | Blocked monitor_state

definition emit :: "event \<Rightarrow> monitor_state \<Rightarrow> monitor_state" where
  "emit e s = s\<lparr>trace := trace s @ [e]\<rparr>"

definition mu_Lock :: "monitor_state \<Rightarrow> monitor_state option" where
  "mu_Lock s = (if mu_locked s then None else Some (emit EvLock (s\<lparr>mu_locked := True\<rparr>)))"

definition mu_Unlock :: "monitor_state \<Rightarrow> monitor_state" where
  "mu_Unlock s = emit EvUnlock (s\<lparr>mu_locked := False\<rparr>)"

text \<open>Closing a closed channel panics.\<close>

definition close_shutdownCh :: "monitor_state \<Rightarrow> panic + monitor_state" where
  "close_shutdownCh s =
     (if shutdownCh_closed s then Inl CloseOfClosedChannel
      else Inr (emit EvClose (s\<lparr>shutdownCh_closed := True\<rparr>)))"

definition Stop :: "monitor_state \<Rightarrow> monitor_state outcome" where
  "Stop s = (case close_shutdownCh s of Inl p \<Rightarrow> Panicked p s | Inr s' \<Rightarrow> Returned s')"

definition Second :: int where
  "Second = 1000000000"

text \<open>
  The \<open>select\<close> of the goroutine of stopContainers: it receives from the exit channel or
  from \<open>time.After(timeout)\<close>, whichever is ready first.
\<close>

datatype selected = ExitFirst int | TimerFirst

definition select_exit :: "int option \<Rightarrow> int \<Rightarrow> bool \<Rightarrow> selected" where
  "select_exit wait timeout tie =
     (case wait of
        None \<Rightarrow> TimerFirst
      | Some d \<Rightarrow>
          if d < timeout then ExitFirst d
          else if timeout < d then TimerFirst
          else if tie then ExitFirst d else TimerFirst)"

text \<open>
  The goroutine stopContainers starts for a task: its body, and after it the deferred
  \<open>wg.Done()\<close>. The result of \<open>task.Delete\<close> is dropped by the source.
\<close>

definition stop_unit_body :: "task \<Rightarrow> int option \<Rightarrow> action list" where
  "stop_unit_body task wait =
     (case Kill task SIGTERM of
        Some err \<Rightarrow> [ActKill SIGTERM]
      | None \<Rightarrow>
          (case select_exit wait (10 * Second) (exit_wins_tie task) of
             ExitFirst d \<Rightarrow> [ActKill SIGTERM, ActExit d, ActDelete]
           | TimerFirst \<Rightarrow> [ActKill SIGTERM, ActTimeout (10 * Second)]))"

definition stop_unit :: "task \<Rightarrow> int option \<Rightarrow> action list" where
  "stop_unit task wait = stop_unit_body task wait @ [ActDone]"

text \<open>
  The body of the loop of stopContainers: the counter of the WaitGroup and the
  goroutines started so far, then one container.
\<close>

definition stopContainers_step ::
  "nat \<times> event list \<Rightarrow> container \<Rightarrow> nat \<times> event list" where
  "stopContainers_step st c =
     (case c_Task c of
        Inl err \<Rightarrow> st
      | Inr task \<Rightarrow>
          (case Wait task of
             Inl err \<Rightarrow> st
           | Inr wait \<Rightarrow> (fst st + 1, snd st @ [EvGo (c_ID c) (stop_unit task wait)])))"

text \<open>How often the goroutines of a trace call \<open>wg.Done()\<close>.\<close>

fun wg_Done_calls :: "event list \<Rightarrow> nat" where
  "wg_Done_calls [] = 0"
| "wg_Done_calls (EvGo cid acts # evs) = count_list acts ActDone + wg_Done_calls evs"
| "wg_Done_calls (e # evs) = wg_Done_calls evs"

text \<open>
  \<open>wg.Wait()\<close> returns once the counter is zero: when the goroutines have made as many
  calls of \<open>Done\<close> as the loop has made of \<open>Add(1)\<close>. With fewer it never returns.
\<close>

definition stopContainers ::
  "client \<Rightarrow> string \<Rightarrow> monitor_state \<Rightarrow> (error option \<times> monitor_state) outcome" where
  "stopContainers cl name s =
     (case Containers cl name of
        Inl err \<Rightarrow> Returned (Some err, s)
      | Inr containers \<Rightarrow>
          (let st = foldl stopContainers_step (0, []) containers;
               s1 = s\<lparr>trace := trace s @ snd st\<rparr>
           in if fst st - wg_Done_calls (snd st) = 0
              then Returned (None, emit EvWgWait s1)
              else Blocked s1))"

text \<open>The loop of Shutdown over the namespaces; an error of stopContainers is logged.\<close>

fun Shutdown_loop :: "client \<Rightarrow> string list \<Rightarrow> monitor_state \<Rightarrow> monitor_state outcome" where
  "Shutdown_loop cl [] s = Returned s"
| "Shutdown_loop cl (name # ns) s =
     (case stopContainers cl name s of
        Returned r \<Rightarrow> Shutdown_loop cl ns (snd r)
      | Panicked p s' \<Rightarrow> Panicked p s'
      | Blocked s' \<Rightarrow> Blocked s')"

text \<open>
  \<open>close(m.shutdownCh)\<close> followed by the return of Shutdown: the deferred Unlock runs
  when Shutdown returns and when it panics.
\<close>

definition close_and_return :: "monitor_state \<Rightarrow> monitor_state outcome" where
  "close_and_return s =
     (case close_shutdownCh s of
        Inl p \<Rightarrow> Panicked p (mu_Unlock s)
      | Inr s' \<Rightarrow> Returned (mu_Unlock s'))"

definition Shutdown :: "client \<Rightarrow> monitor_state \<Rightarrow> monitor_state outcome" where
  "Shutdown cl s =
     (case mu_Lock s of
        None \<Rightarrow> Blocked s
      | Some s1 \<Rightarrow>
          (case NamespaceList cl of
             Inl err \<Rightarrow> close_and_return s1
           | Inr ns \<Rightarrow>
               (case Shutdown_loop cl ns s1 of
                  Returned s2 \<Rightarrow> close_and_return s2
                | Panicked p s' \<Rightarrow> Panicked p (mu_Unlock s')
                | Blocked s' \<Rightarrow> Blocked s')))"

text \<open>
  reconcile: for each namespace the changes of \<open>monitor\<close>, applied in their order.
  \<open>apply\<close> is a method of the change types; its error is logged and changes nothing
  in the loop.
\<close>

definition apply_changes :: "string \<Rightarrow> change list \<Rightarrow> monitor_state \<Rightarrow> monitor_state" where
  "apply_changes name changes s = foldl (\<lambda>s c. emit (EvApply name c) s) s changes"

definition reconcile_namespace :: "client \<Rightarrow> monitor_state \<Rightarrow> string \<Rightarrow> monitor_state" where
  "reconcile_namespace cl s name =
     (case monitor cl name of
        Inl err \<Rightarrow> s
      | Inr changes \<Rightarrow> apply_changes name changes s)"

definition reconcile :: "client \<Rightarrow> monitor_state \<Rightarrow> error option \<times> monitor_state" where
  "reconcile cl s =
     (case NamespaceList cl of
        Inl err \<Rightarrow> (Some err, s)
      | Inr ns \<Rightarrow> (None, foldl (reconcile_namespace cl) s ns))"

text \<open>
  The loop of Run. It ends only through its \<open>return\<close>, so the model runs it for the
  iterations it is given, one answer of the runtime for each: the list is the fuel,
  and \<open>RunLooping\<close> is the loop still going after the last of them. In the \<open>select\<close>,
  receiving from \<open>shutdownCh\<close> is ready exactly when the channel is closed; otherwise
  the default case runs.
\<close>

datatype run_outcome =
    RunReturned monitor_state
  | RunBlocked monitor_state
  | RunLooping monitor_state

fun Run_loop :: "client list \<Rightarrow> int \<Rightarrow> monitor_state \<Rightarrow> run_outcome" where
  "Run_loop [] interval s = RunLooping s"
| "Run_loop (cl # ticks) interval s =
     (let s1 = emit (EvSleep interval) s
      in case mu_Lock s1 of
           None \<Rightarrow> RunBlocked s1
         | Some s2 \<Rightarrow>
             if shutdownCh_closed s2 then RunReturned s2
             else Run_loop ticks interval (mu_Unlock (snd (reconcile cl s2))))"

definition Run :: "client list \<Rightarrow> int \<Rightarrow> monitor_state \<Rightarrow> run_outcome" where
  "Run ticks interval s =
     Run_loop ticks (if interval = 0 then 10 * Second else interval) s"

text \<open>The Monitor as \<open>New\<close> returns it.\<close>

definition New :: monitor_state where
  "New = \<lparr>shutdownCh_closed = False, mu_locked = False, trace = []\<rparr>"

text \<open>
  A sequence of calls on one Monitor, each made once the one before it is over (it
  returned, or it is blocked for good); a panic ends the program.
\<close>

datatype call = CallStop | CallShutdown client | CallRun "client list" int

fun after_calls :: "call list \<Rightarrow> monitor_state \<Rightarrow> monitor_state" where
  "after_calls [] s = s"
| "after_calls (CallStop # cs) s =
     (case Stop s of
        Returned s' \<Rightarrow> after_calls cs s'
      | Panicked p s' \<Rightarrow> s'
      | Blocked s' \<Rightarrow> after_calls cs s')"
| "after_calls (CallShutdown cl # cs) s =
     (case Shutdown cl s of
        Returned s' \<Rightarrow> after_calls cs s'
      | Panicked p s' \<Rightarrow> s'
      | Blocked s' \<Rightarrow> after_calls cs s')"
| "after_calls (CallRun ticks interval # cs) s =
     (case Run ticks interval s of
        RunReturned s' \<Rightarrow> after_calls cs s'
      | RunBlocked s' \<Rightarrow> after_calls cs s'
      | RunLooping s' \<Rightarrow> after_calls cs s')"

section \<open>Reading a trace; an example runtime\<close>

text \<open>The goroutines a trace starts for one container ID, each as its list of actions.\<close>

definition units_of :: "string \<Rightarrow> event list \<Rightarrow> action list list" where
  "units_of cid evs = concat (map (\<lambda>e. case e of EvGo i acts \<Rightarrow> (if i = cid then [acts] else []) | _ \<Rightarrow> []) evs)"

text \<open>What one pass of the loop of stopContainers adds to the trace for a container.\<close>

definition unit_events :: "container \<Rightarrow> event list" where
  "unit_events c = snd (stopContainers_step (0, []) c)"

text \<open>
  The events of one pass of reconcile: namespace after namespace, the changes of
  \<open>monitor\<close> applied in their order; nothing when the namespaces cannot be listed.
\<close>

definition reconcile_events :: "client \<Rightarrow> event list" where
  "reconcile_events cl =
     (case NamespaceList cl of
        Inl err \<Rightarrow> []
      | Inr ns \<Rightarrow>
          concat (map (\<lambda>name. case monitor cl name of
                                 Inl err \<Rightarrow> []
                               | Inr changes \<Rightarrow> map (EvApply name) changes) ns))"

text \<open>
  The events of stopContainers in one namespace and of the whole loop of Shutdown:
  the goroutines in the order they are started, each namespace ending with the
  return of \<open>wg.Wait()\<close>; nothing for a namespace, or for all of them, that cannot be
  listed.
\<close>

definition stop_events :: "client \<Rightarrow> string \<Rightarrow> event list" where
  "stop_events cl name =
     (case Containers cl name of
        Inl err \<Rightarrow> []
      | Inr cs \<Rightarrow> concat (map unit_events cs) @ [EvWgWait])"

definition shutdown_events :: "client \<Rightarrow> event list" where
  "shutdown_events cl =
     (case NamespaceList cl of
        Inl err \<Rightarrow> []
      | Inr ns \<Rightarrow> concat (map (stop_events cl) ns))"

text \<open>
  An input for the examples: one namespace with one container, whose task runs and
  exits one second after it is signalled.
\<close>

definition example_task :: task where
  "example_task =
     \<lparr>Status = Inr ''running'', Wait = Inr (Some 1000000000), Kill = (\<lambda>sig. None),
      exit_wins_tie = True\<rparr>"

definition example_container :: container where
  "example_container =
     \<lparr>c_ID = ''web1'', c_Labels = Inr [StatusLabel \<mapsto> ''stopped''],
      c_Task = Inr example_task\<rparr>"

definition example_client :: client where
  "example_client =
     \<lparr>NamespaceList = Inr [''default''], Containers = (\<lambda>name. Inr [example_container])\<rparr>"

section \<open>The goroutines of Run and Shutdown, step by step\<close>

text \<open>
  To say which goroutines can be at work at the same time, the calls are run again in
  single steps: the goroutine of Run, one call of Shutdown, the goroutines that
  stopContainers starts, and calls of Stop, each taking one step at a time in any
  order. A goroutine is where it stands in its code. The goroutines of stopContainers
  are those of the sequential model, each with the actions \<open>stop_unit\<close> gives it from the
  answers of the runtime. The steps are not timed, so every order of steps is a run:
  these are all the runs the scheduler allows and more (an exit after one second is
  in fact received before a timer of ten seconds fires), and what holds of all of them
  holds of the real ones.

  Run stands at \<open>time.Sleep\<close>, at \<open>m.mu.Lock()\<close>, at the \<open>select\<close>, in \<open>m.reconcile\<close>, at
  \<open>m.mu.Unlock()\<close>, or it has returned (from the \<open>select\<close>, the mutex still held).
\<close>

datatype run_pc = RunSleep | RunLock | RunSelect | RunReconcile | RunUnlock | RunLeft

text \<open>
  Shutdown has not been called, or stands at \<open>m.mu.Lock()\<close>, at the listing of the
  namespaces, at the head of its loop over them, in the loop of stopContainers that
  starts the goroutines, in \<open>wg.Wait()\<close>, at \<open>close(m.shutdownCh)\<close>, at the deferred
  \<open>m.mu.Unlock()\<close>, or it is over.
\<close>

datatype shutdown_pc =
    ShIdle | ShLock | ShList | ShNext | ShStart | ShWait | ShClose | ShUnlock | ShOver

text \<open>
  The state: the mutex, the channel, whether the program has panicked, where Run and
  Shutdown stand, the namespaces Shutdown has yet to visit, the goroutines stopContainers
  has yet to start in the namespace it is in, its WaitGroup (\<open>wg_id\<close> numbers the
  WaitGroups, one for each call of stopContainers that lists its containers, and
  \<open>wg_counter\<close> is the counter of the one in use), and every goroutine started so far
  with the number of its WaitGroup and the actions it has left to do.
\<close>

record sys =
  sys_mu :: bool
  sys_closed :: bool
  sys_panicked :: bool
  run_at :: run_pc
  shutdown_at :: shutdown_pc
  namespaces_left :: "string list"
  to_start :: "event list"
  wg_id :: nat
  wg_counter :: nat
  started :: "(nat \<times> action list) list"

text \<open>One step of Run, lines 161 to 173. \<open>Lock\<close> steps only when the mutex is free.\<close>

definition run_step :: "sys \<Rightarrow> sys" where
  "run_step s =
     (case run_at s of
        RunSleep \<Rightarrow> s\<lparr>run_at := RunLock\<rparr>
      | RunLock \<Rightarrow> if sys_mu s then s else s\<lparr>sys_mu := True, run_at := RunSelect\<rparr>
      | RunSelect \<Rightarrow>
          if sys_closed s then s\<lparr>run_at := RunLeft\<rparr> else s\<lparr>run_at := RunReconcile\<rparr>
      | RunReconcile \<Rightarrow> s\<lparr>run_at := RunUnlock\<rparr>
      | RunUnlock \<Rightarrow> s\<lparr>sys_mu := False, run_at := RunSleep\<rparr>
      | RunLeft \<Rightarrow> s)"

text \<open>
  One step of Shutdown and of the stopContainers it calls. The goroutines to start in a
  namespace are those of \<open>unit_events\<close>; each start is \<open>wg.Add(1)\<close> and \<open>go\<close>; \<open>wg.Wait()\<close>
  steps only when the counter is zero. A close of the closed channel panics, and the
  deferred Unlock still runs.
\<close>

definition shutdown_step :: "client \<Rightarrow> sys \<Rightarrow> sys" where
  "shutdown_step cl s =
     (case shutdown_at s of
        ShIdle \<Rightarrow> s\<lparr>shutdown_at := ShLock\<rparr>
      | ShLock \<Rightarrow> if sys_mu s then s else s\<lparr>sys_mu := True, shutdown_at := ShList\<rparr>
      | ShList \<Rightarrow>
          (case NamespaceList cl of
             Inl err \<Rightarrow> s\<lparr>shutdown_at := ShClose\<rparr>
           | Inr ns \<Rightarrow> s\<lparr>shutdown_at := ShNext, namespaces_left := ns\<rparr>)
      | ShNext \<Rightarrow>
          (case namespaces_left s of
             [] \<Rightarrow> s\<lparr>shutdown_at := ShClose\<rparr>
           | name # ns \<Rightarrow>
               (case Containers cl name of
                  Inl err \<Rightarrow> s\<lparr>namespaces_left := ns\<rparr>
                | Inr cs \<Rightarrow>
                    s\<lparr>shutdown_at := ShStart, namespaces_left := ns,
                      to_start := concat (map unit_events cs),
                      wg_id := wg_id s + 1, wg_counter := 0\<rparr>))
      | ShStart \<Rightarrow>
          (case to_start s of
             [] \<Rightarrow> s\<lparr>shutdown_at := ShWait\<rparr>
           | e # es \<Rightarrow>
               (case e of
                  EvGo cid acts \<Rightarrow>
                    s\<lparr>to_start := es, wg_counter := wg_counter s + 1,
                      started := started s @ [(wg_id s, acts)]\<rparr>
                | _ \<Rightarrow> s\<lparr>to_start := es\<rparr>))
      | ShWait \<Rightarrow> if wg_counter s = 0 then s\<lparr>shutdown_at := ShNext\<rparr> else s
      | ShClose \<Rightarrow>
          if sys_closed s
          then s\<lparr>sys_panicked := True, sys_mu := False, shutdown_at := ShOver\<rparr>
          else s\<lparr>sys_closed := True, shutdown_at := ShUnlock\<rparr>
      | ShUnlock \<Rightarrow> s\<lparr>sys_mu := False, shutdown_at := ShOver\<rparr>
      | ShOver \<Rightarrow> s)"

text \<open>
  One step of the goroutine at index \<open>i\<close>: its next action. \<open>wg.Done()\<close> counts down the
  WaitGroup the goroutine was started with.
\<close>

definition unit_step :: "nat \<Rightarrow> sys \<Rightarrow> sys" where
  "unit_step i s =
     (if i < length (started s)
      then (case snd (started s ! i) of
              [] \<Rightarrow> s
            | a # rest \<Rightarrow>
                s\<lparr>started := (started s)[i := (fst (started s ! i), rest)],
                  wg_counter :=
                    (if a = ActDone \<and> fst (started s ! i) = wg_id s
                     then wg_counter s - 1 else wg_counter s)\<rparr>)
      else s)"

text \<open>A call of Stop from any goroutine: one close of the channel.\<close>

definition stop_step :: "sys \<Rightarrow> sys" where
  "stop_step s = (if sys_closed s then s\<lparr>sys_panicked := True\<rparr> else s\<lparr>sys_closed := True\<rparr>)"

datatype move = MoveRun | MoveShutdown | MoveUnit nat | MoveStop

text \<open>A panic ends the program: nothing steps after it.\<close>

definition step :: "client \<Rightarrow> sys \<Rightarrow> move \<Rightarrow> sys" where
  "step cl s m =
     (if sys_panicked s then s
      else case m of
             MoveRun \<Rightarrow> run_step s
           | MoveShutdown \<Rightarrow> shutdown_step cl s
           | MoveUnit i \<Rightarrow> unit_step i s
           | MoveStop \<Rightarrow> stop_step s)"

definition exec :: "client \<Rightarrow> move list \<Rightarrow> sys \<Rightarrow> sys" where
  "exec cl moves s = foldl (step cl) s moves"

definition sys_New :: sys where
  "sys_New =
     \<lparr>sys_mu = False, sys_closed = False, sys_panicked = False, run_at = RunSleep,
      shutdown_at = ShIdle, namespaces_left = [], to_start = [], wg_id = 0,
      wg_counter = 0, started = []\<rparr>"

text \<open>
  Run holds the mutex from its \<open>Lock\<close> on: at the \<open>select\<close>, in its reconcile pass, at the
  \<open>Unlock\<close>, and after its return from the \<open>select\<close>. The shutdown path is Shutdown
  from its \<open>Lock\<close> to its \<open>Unlock\<close>.
\<close>

definition run_holds :: "sys \<Rightarrow> bool" where
  "run_holds s =
     (run_at s = RunSelect \<or> run_at s = RunReconcile \<or> run_at s = RunUnlock \<or> run_at s = RunLeft)"

definition in_shutdown :: "sys \<Rightarrow> bool" where
  "in_shutdown s =
     (shutdown_at s = ShList \<or> shutdown_at s = ShNext \<or> shutdown_at s = ShStart \<or>
      shutdown_at s = ShWait \<or> shutdown_at s = ShClose \<or> shutdown_at s = ShUnlock)"

definition mutex_inv :: "sys \<Rightarrow> bool" where
  "mutex_inv s = ((sys_mu s = (run_holds s \<or> in_shutdown s)) \<and> \<not> (run_holds s \<and> in_shutdown s))"

text \<open>
  The goroutines not yet at their end, and those of the WaitGroup in use. The
  invariants: a goroutine's actions end with its only \<open>wg.Done()\<close>; the counter is the
  number of goroutines of the WaitGroup in use that are not at their end; goroutines of
  earlier WaitGroups are at their end.
\<close>

definition running :: "sys \<Rightarrow> (nat \<times> action list) list" where
  "running s = filter (\<lambda>g. snd g \<noteq> []) (started s)"

definition current :: "sys \<Rightarrow> (nat \<times> action list) list" where
  "current s = filter (\<lambda>g. fst g = wg_id s) (started s)"

definition goroutines_of :: "event list \<Rightarrow> action list list" where
  "goroutines_of evs = concat (map (\<lambda>e. case e of EvGo cid acts \<Rightarrow> [acts] | _ \<Rightarrow> []) evs)"

definition unit_shape :: "action list \<Rightarrow> bool" where
  "unit_shape acts = (acts = [] \<or> (last acts = ActDone \<and> ActDone \<notin> set (butlast acts)))"

definition pending :: "nat \<Rightarrow> nat \<times> action list \<Rightarrow> nat" where
  "pending w g = (if fst g = w \<and> snd g \<noteq> [] then 1 else 0)"

definition wg_inv :: "sys \<Rightarrow> bool" where
  "wg_inv s =
     ((\<forall>g \<in> set (started s). unit_shape (snd g))
      \<and> (\<forall>e \<in> set (to_start s). \<exists>cid task wait. e = EvGo cid (stop_unit task wait))
      \<and> sum_list (map (pending (wg_id s)) (started s)) = wg_counter s
      \<and> (\<forall>g \<in> set (started s). fst g \<noteq> wg_id s \<longrightarrow> snd g = [])
      \<and> (\<forall>g \<in> set (started s). fst g \<le> wg_id s)
      \<and> (shutdown_at s \<noteq> ShStart \<and> shutdown_at s \<noteq> ShWait \<longrightarrow> wg_counter s = 0))"

definition one_inv :: "sys \<Rightarrow> bool" where
  "one_inv s = (wg_inv s \<and> length (current s) + length (to_start s) \<le> 1)"






text \<open>
  Two more inputs for the examples: a second container, whose task never exits; a
  runtime with both containers in one namespace, and one with a namespace for each.
\<close>

definition example_container2 :: container where
  "example_container2 =
     \<lparr>c_ID = ''db1'', c_Labels = Inr [StatusLabel \<mapsto> ''running''],
      c_Task = Inr (example_task\<lparr>Wait := Inr None\<rparr>)\<rparr>"

definition example_client2 :: client where
  "example_client2 =
     \<lparr>NamespaceList = Inr [''default''],
      Containers = (\<lambda>name. Inr [example_container, example_container2])\<rparr>"

definition example_client3 :: client where
  "example_client3 =
     \<lparr>NamespaceList = Inr [''a'', ''b''],
      Containers = (\<lambda>name. if name = ''a'' then Inr [example_container]
                             else Inr [example_container2])\<rparr>"

section \<open>Lemmas about the reconciler\<close>

lemma isSameStatus_ActualStatus: "isSameStatus desired c = (desired = ActualStatus c)"
  by (simp add: isSameStatus_def ActualStatus_def split: sum.splits)

lemma foldl_monitor_step_append:
  "foldl monitor_step acc cs = acc @ foldl monitor_step [] cs"
proof (induction cs arbitrary: acc)
  case Nil
  show ?case by simp
next
  case (Cons c cs)
  have step: "monitor_step acc c = acc @ monitor_step [] c" for acc
    by (simp add: monitor_step_def Let_def split: sum.splits)
  have "foldl monitor_step acc (c # cs) = foldl monitor_step (monitor_step acc c) cs"
    by simp
  also have "\<dots> = monitor_step acc c @ foldl monitor_step [] cs"
    by (rule Cons.IH)
  also have "\<dots> = acc @ (monitor_step [] c @ foldl monitor_step [] cs)"
    by (simp add: step [of acc])
  also have "monitor_step [] c @ foldl monitor_step [] cs = foldl monitor_step (monitor_step [] c) cs"
    by (rule Cons.IH [symmetric])
  finally show ?case by simp
qed

lemma monitor_step_container:
  "ch \<in> set (monitor_step [] c) \<Longrightarrow> change_container ch = c"
  by (auto simp: monitor_step_def Let_def split: sum.splits if_splits)

lemma changes_for_other:
  "c' \<noteq> c \<Longrightarrow> changes_for c (monitor_step [] c') = []"
  unfolding changes_for_def filter_empty_conv
  using monitor_step_container by blast

lemma changes_for_self:
  "changes_for c (monitor_step [] c) = monitor_step [] c"
  unfolding changes_for_def filter_id_conv
  using monitor_step_container by blast

lemma changes_for_append:
  "changes_for c (xs @ ys) = changes_for c xs @ changes_for c ys"
  by (simp add: changes_for_def)

lemma changes_for_absent:
  "c \<notin> set cs \<Longrightarrow> changes_for c (foldl monitor_step [] cs) = []"
proof (induction cs)
  case Nil
  show ?case by (simp add: changes_for_def)
next
  case (Cons c' cs)
  then have "c' \<noteq> c" and "c \<notin> set cs" by auto
  then show ?case
    using Cons.IH
    by (simp add: foldl_monitor_step_append [of "monitor_step [] c'"]
        changes_for_append changes_for_other)
qed

lemma changes_for_distinct:
  "distinct cs \<Longrightarrow> c \<in> set cs \<Longrightarrow>
   changes_for c (foldl monitor_step [] cs) = monitor_step [] c"
proof (induction cs)
  case Nil
  then show ?case by simp
next
  case (Cons c' cs)
  show ?case
  proof (cases "c' = c")
    case True
    with Cons.prems have "c \<notin> set cs" by simp
    then show ?thesis
      using True
      by (simp add: foldl_monitor_step_append [of "monitor_step [] c"]
          changes_for_append changes_for_self changes_for_absent)
  next
    case False
    with Cons.prems have "distinct cs" and "c \<in> set cs" by auto
    then show ?thesis
      using False Cons.IH
      by (simp add: foldl_monitor_step_append [of "monitor_step [] c'"]
          changes_for_append changes_for_other)
  qed
qed

lemma changes_for_none:
  "monitor_step [] c = [] \<Longrightarrow> changes_for c (foldl monitor_step [] cs) = []"
proof (induction cs)
  case Nil
  show ?case by (simp add: changes_for_def)
next
  case (Cons c' cs)
  have "changes_for c (monitor_step [] c') = []"
  proof (cases "c' = c")
    case True
    with Cons.prems show ?thesis by (simp add: changes_for_def)
  next
    case False
    then show ?thesis by (rule changes_for_other)
  qed
  then show ?case
    using Cons
    by (simp add: foldl_monitor_step_append [of "monitor_step [] c'"] changes_for_append)
qed

lemma distinct_IDs: "distinct (map c_ID cs) \<Longrightarrow> distinct cs"
  by (rule distinct_map [THEN iffD1, THEN conjunct1])

section \<open>Lemmas about toStrings\<close>

lemma Index_None: "(Index s sep = None) = (sep \<notin> set s)"
  by (induction s) auto

lemma Index_first: "sep \<notin> set k \<Longrightarrow> Index (k @ sep # v) sep = Some (length k)"
  by (induction k) auto

lemma SplitN2_none: "sep \<notin> set s \<Longrightarrow> SplitN2 s sep = [s]"
  using Index_None [of s sep] by (simp add: SplitN2_def)

lemma SplitN2_first: "sep \<notin> set k \<Longrightarrow> SplitN2 (k @ sep # v) sep = [k, v]"
  by (simp add: SplitN2_def Index_first)

lemma SplitN2_some: "sep \<in> set s \<Longrightarrow> \<exists>k v. SplitN2 s sep = [k, v]"
  by (cases "Index s sep") (simp_all add: SplitN2_def Index_None)

lemma toStrings_loop_panic:
  "s \<in> set ss \<Longrightarrow> CHR ''='' \<notin> set s \<Longrightarrow> toStrings_loop ss m = Inl (IndexOutOfRange 1 1)"
proof (induction ss arbitrary: m)
  case Nil
  then show ?case by simp
next
  case (Cons a ss)
  show ?case
  proof (cases "CHR ''='' \<in> set a")
    case True
    then obtain k v where kv: "SplitN2 a CHR ''='' = [k, v]"
      using SplitN2_some by blast
    from True Cons.prems have "s \<in> set ss" by auto
    then have "toStrings_loop ss (m(k \<mapsto> v)) = Inl (IndexOutOfRange 1 1)"
      using Cons.prems(2) by (rule Cons.IH)
    then show ?thesis by (simp add: kv slice_index_def)
  next
    case False
    then show ?thesis by (simp add: SplitN2_none slice_index_def)
  qed
qed

lemma toStrings_loop_pairs:
  "\<forall>(k, v) \<in> set kvs. CHR ''='' \<notin> set k \<Longrightarrow>
   toStrings_loop (map (\<lambda>(k, v). k @ ''='' @ v) kvs) m = Inr (m ++ map_of (rev kvs))"
proof (induction kvs arbitrary: m)
  case Nil
  show ?case by simp
next
  case (Cons kv kvs)
  obtain k v where kv: "kv = (k, v)" by (cases kv)
  with Cons.prems have k: "CHR ''='' \<notin> set k" and rest: "\<forall>(k, v) \<in> set kvs. CHR ''='' \<notin> set k"
    by auto
  have "toStrings_loop (map (\<lambda>(k, v). k @ ''='' @ v) (kv # kvs)) m
      = toStrings_loop (map (\<lambda>(k, v). k @ ''='' @ v) kvs) (m(k \<mapsto> v))"
    using k by (simp add: kv SplitN2_first slice_index_def)
  also have "\<dots> = Inr (m(k \<mapsto> v) ++ map_of (rev kvs))"
    using rest by (rule Cons.IH)
  also have "m(k \<mapsto> v) ++ map_of (rev kvs) = m ++ map_of (rev (kv # kvs))"
    by (simp add: kv map_add_def fun_eq_iff split: option.splits)
  finally show ?case .
qed

section \<open>Lemmas about stopContainers, Shutdown and Run\<close>

lemma count_Done_stop_unit: "count_list (stop_unit task wait) ActDone = 1"
  by (simp add: stop_unit_def stop_unit_body_def split: option.splits selected.splits)

lemma wg_Done_calls_append:
  "wg_Done_calls (evs @ evs') = wg_Done_calls evs + wg_Done_calls evs'"
  by (induction evs rule: wg_Done_calls.induct) simp_all

lemma stopContainers_step_events:
  "snd (stopContainers_step st c) = snd st @ unit_events c"
  by (simp add: stopContainers_step_def unit_events_def split: sum.splits)

lemma stopContainers_step_counter:
  "fst (stopContainers_step st c) = fst st + wg_Done_calls (unit_events c)"
  by (simp add: stopContainers_step_def unit_events_def count_Done_stop_unit split: sum.splits)

lemma stopContainers_fold_events:
  "snd (foldl stopContainers_step st cs) = snd st @ concat (map unit_events cs)"
  by (induction cs arbitrary: st) (simp_all add: stopContainers_step_events)

lemma stopContainers_fold_counter:
  "fst (foldl stopContainers_step st cs) = fst st + wg_Done_calls (concat (map unit_events cs))"
  by (induction cs arbitrary: st)
     (simp_all add: stopContainers_step_events stopContainers_step_counter wg_Done_calls_append)

lemma stopContainers_listed:
  "Containers cl name = Inr cs \<Longrightarrow>
   stopContainers cl name s =
     Returned (None, s\<lparr>trace := trace s @ concat (map unit_events cs) @ [EvWgWait]\<rparr>)"
  by (simp add: stopContainers_def Let_def stopContainers_fold_events
      stopContainers_fold_counter emit_def)

lemma stopContainers_error:
  "Containers cl name = Inl err \<Longrightarrow> stopContainers cl name s = Returned (Some err, s)"
  by (simp add: stopContainers_def)

lemma stopContainers_returns:
  "\<exists>err s'. stopContainers cl name s = Returned (err, s') \<and>
     mu_locked s' = mu_locked s \<and> shutdownCh_closed s' = shutdownCh_closed s"
  by (cases "Containers cl name") (simp_all add: stopContainers_listed stopContainers_error)

lemma Shutdown_loop_returns:
  "\<exists>s'. Shutdown_loop cl ns s = Returned s' \<and>
     mu_locked s' = mu_locked s \<and> shutdownCh_closed s' = shutdownCh_closed s"
proof (induction ns arbitrary: s)
  case Nil
  show ?case by simp
next
  case (Cons name ns)
  obtain err s1 where 1: "stopContainers cl name s = Returned (err, s1)"
    and 2: "mu_locked s1 = mu_locked s" "shutdownCh_closed s1 = shutdownCh_closed s"
    using stopContainers_returns by blast
  from Cons.IH [of s1] obtain s' where "Shutdown_loop cl ns s1 = Returned s'"
    and "mu_locked s' = mu_locked s1" "shutdownCh_closed s' = shutdownCh_closed s1"
    by blast
  with 1 2 show ?case by simp
qed

lemma Shutdown_blocked: "mu_locked s \<Longrightarrow> Shutdown cl s = Blocked s"
  by (simp add: Shutdown_def mu_Lock_def)

lemma close_and_return_open:
  "\<not> shutdownCh_closed s \<Longrightarrow>
   close_and_return s = Returned (s\<lparr>shutdownCh_closed := True, mu_locked := False, trace := trace s @ [EvClose, EvUnlock]\<rparr>)"
  by (simp add: close_and_return_def close_shutdownCh_def mu_Unlock_def emit_def)

lemma close_and_return_closed:
  "shutdownCh_closed s \<Longrightarrow>
   close_and_return s = Panicked CloseOfClosedChannel (s\<lparr>mu_locked := False, trace := trace s @ [EvUnlock]\<rparr>)"
  by (simp add: close_and_return_def close_shutdownCh_def mu_Unlock_def emit_def)

lemma Shutdown_open:
  assumes "\<not> mu_locked s" and "\<not> shutdownCh_closed s"
  shows "\<exists>s'. Shutdown cl s = Returned s' \<and> shutdownCh_closed s' \<and> \<not> mu_locked s'"
proof (cases "NamespaceList cl")
  case (Inl err)
  then show ?thesis
    using assms by (simp add: Shutdown_def mu_Lock_def emit_def close_and_return_open)
next
  case (Inr ns)
  let ?s1 = "emit EvLock (s\<lparr>mu_locked := True\<rparr>)"
  obtain s2 where "Shutdown_loop cl ns ?s1 = Returned s2"
    and "shutdownCh_closed s2 = shutdownCh_closed ?s1"
    using Shutdown_loop_returns by blast
  then show ?thesis
    using assms Inr by (simp add: Shutdown_def mu_Lock_def emit_def close_and_return_open)
qed

lemma Shutdown_closed:
  assumes "\<not> mu_locked s" and "shutdownCh_closed s"
  shows "\<exists>s'. Shutdown cl s = Panicked CloseOfClosedChannel s' \<and> shutdownCh_closed s' \<and> \<not> mu_locked s'"
proof (cases "NamespaceList cl")
  case (Inl err)
  then show ?thesis
    using assms by (simp add: Shutdown_def mu_Lock_def emit_def close_and_return_closed)
next
  case (Inr ns)
  let ?s1 = "emit EvLock (s\<lparr>mu_locked := True\<rparr>)"
  obtain s2 where "Shutdown_loop cl ns ?s1 = Returned s2"
    and "shutdownCh_closed s2 = shutdownCh_closed ?s1"
    using Shutdown_loop_returns by blast
  then show ?thesis
    using assms Inr by (simp add: Shutdown_def mu_Lock_def emit_def close_and_return_closed)
qed

lemma apply_changes_trace:
  "apply_changes name changes s = s\<lparr>trace := trace s @ map (EvApply name) changes\<rparr>"
  by (induction changes arbitrary: s) (simp_all add: apply_changes_def emit_def)

lemma reconcile_namespace_trace:
  "reconcile_namespace cl s name =
     s\<lparr>trace := trace s @ (case monitor cl name of Inl err \<Rightarrow> [] | Inr changes \<Rightarrow> map (EvApply name) changes)\<rparr>"
  by (simp add: reconcile_namespace_def apply_changes_trace split: sum.splits)

lemma reconcile_fold_trace:
  "foldl (reconcile_namespace cl) s ns =
     s\<lparr>trace := trace s @ concat (map (\<lambda>name. case monitor cl name of
                                 Inl err \<Rightarrow> []
                               | Inr changes \<Rightarrow> map (EvApply name) changes) ns)\<rparr>"
proof (induction ns arbitrary: s)
  case Nil
  show ?case by simp
next
  case (Cons name ns)
  show ?case
    by (simp add: Cons.IH) (simp add: reconcile_namespace_trace)
qed

lemma reconcile_trace:
  "snd (reconcile cl s) = s\<lparr>trace := trace s @ reconcile_events cl\<rparr>"
  by (simp add: reconcile_def reconcile_events_def reconcile_fold_trace split: sum.splits)

lemma Run_loop_exit:
  "\<not> mu_locked s \<Longrightarrow> shutdownCh_closed s \<Longrightarrow>
   Run_loop (cl # ticks) iv s =
     RunReturned (s\<lparr>mu_locked := True, trace := trace s @ [EvSleep iv, EvLock]\<rparr>)"
  by (simp add: mu_Lock_def emit_def)

lemma Run_loop_pass:
  "\<not> mu_locked s \<Longrightarrow> \<not> shutdownCh_closed s \<Longrightarrow>
   Run_loop (cl # ticks) iv s =
     Run_loop ticks iv
       (s\<lparr>mu_locked := False,
          trace := trace s @ [EvSleep iv, EvLock] @ reconcile_events cl @ [EvUnlock]\<rparr>)"
  by (simp add: mu_Lock_def emit_def mu_Unlock_def reconcile_trace)

lemma Run_loop_blocked:
  "mu_locked s \<Longrightarrow> Run_loop (cl # ticks) iv s = RunBlocked (emit (EvSleep iv) s)"
  by (simp add: mu_Lock_def emit_def)

lemma Run_loop_returned:
  "Run_loop ticks iv s = RunReturned s' \<Longrightarrow> mu_locked s' \<and> shutdownCh_closed s'"
proof (induction ticks arbitrary: s)
  case Nil
  then show ?case by simp
next
  case (Cons cl ticks)
  show ?case
  proof (cases "mu_locked s")
    case True
    with Cons.prems show ?thesis by (simp add: Run_loop_blocked del: Run_loop.simps)
  next
    case False
    show ?thesis
    proof (cases "shutdownCh_closed s")
      case True
      with False Cons.prems show ?thesis by (auto simp add: Run_loop_exit simp del: Run_loop.simps)
    next
      case chan_open: False
      with False Cons.prems Cons.IH show ?thesis by (simp add: Run_loop_pass del: Run_loop.simps)
    qed
  qed
qed

lemma after_calls_locked: "mu_locked s \<Longrightarrow> mu_locked (after_calls calls s)"
proof (induction calls arbitrary: s)
  case Nil
  then show ?case by simp
next
  case (Cons c calls)
  show ?case
  proof (cases c)
    case CallStop
    show ?thesis
    proof (cases "shutdownCh_closed s")
      case True
      then show ?thesis
        using Cons.prems CallStop by (simp add: Stop_def close_shutdownCh_def)
    next
      case False
      then show ?thesis
        using Cons.prems CallStop Cons.IH
        by (simp add: Stop_def close_shutdownCh_def emit_def)
    qed
  next
    case (CallShutdown cl)
    then show ?thesis
      using Cons by (simp add: Shutdown_blocked)
  next
    case (CallRun ticks interval)
    show ?thesis
    proof (cases ticks)
      case Nil
      then show ?thesis using Cons CallRun by (simp add: Run_def)
    next
      case (Cons cl ticks')
      have "mu_locked (emit (EvSleep iv) s)" for iv
        using Cons.prems by (simp add: emit_def)
      then show ?thesis
        using Cons.prems Cons.IH CallRun Cons
        by (simp add: Run_def Run_loop_blocked del: Run_loop.simps)
    qed
  qed
qed

lemma stopContainers_trace:
  "\<exists>err. stopContainers cl name s = Returned (err, s\<lparr>trace := trace s @ stop_events cl name\<rparr>)"
  by (cases "Containers cl name")
     (simp_all add: stopContainers_listed stopContainers_error stop_events_def)

lemma Shutdown_loop_trace:
  "Shutdown_loop cl ns s = Returned (s\<lparr>trace := trace s @ concat (map (stop_events cl) ns)\<rparr>)"
proof (induction ns arbitrary: s)
  case Nil
  show ?case by simp
next
  case (Cons name ns)
  obtain err where "stopContainers cl name s = Returned (err, s\<lparr>trace := trace s @ stop_events cl name\<rparr>)"
    using stopContainers_trace by blast
  then show ?case
    by (simp add: Cons.IH)
qed

lemma Shutdown_open_trace:
  assumes "\<not> mu_locked s" and "\<not> shutdownCh_closed s"
  shows "Shutdown cl s =
     Returned (s\<lparr>shutdownCh_closed := True, mu_locked := False,
                 trace := trace s @ [EvLock] @ shutdown_events cl @ [EvClose, EvUnlock]\<rparr>)"
  using assms
  by (cases "NamespaceList cl")
     (simp_all add: Shutdown_def mu_Lock_def emit_def Shutdown_loop_trace
        close_and_return_open shutdown_events_def)

lemma stop_events_no_Close: "EvClose \<notin> set (stop_events cl name)"
  by (auto simp: stop_events_def unit_events_def stopContainers_step_def split: sum.splits)

lemma shutdown_events_no_Close: "EvClose \<notin> set (shutdown_events cl)"
  by (auto simp: shutdown_events_def stop_events_no_Close split: sum.splits)

lemma units_of_append: "units_of cid (xs @ ys) = units_of cid xs @ units_of cid ys"
  by (simp add: units_of_def)

lemma unit_events_launched:
  "c_Task c = Inr task \<Longrightarrow> Wait task = Inr wait \<Longrightarrow>
   unit_events c = [EvGo (c_ID c) (stop_unit task wait)]"
  by (simp add: unit_events_def stopContainers_step_def)

lemma unit_events_cases:
  "unit_events c = [] \<or> (\<exists>task wait. unit_events c = [EvGo (c_ID c) (stop_unit task wait)])"
  by (auto simp: unit_events_def stopContainers_step_def split: sum.splits)

lemma units_of_other: "c_ID c' \<noteq> cid \<Longrightarrow> units_of cid (unit_events c') = []"
  using unit_events_cases [of c'] by (auto simp: units_of_def)

lemma units_of_Nil: "units_of cid [] = []"
  by (simp add: units_of_def)

lemma units_of_absent:
  "cid \<notin> c_ID ` set cs \<Longrightarrow> units_of cid (concat (map unit_events cs)) = []"
proof (induction cs)
  case Nil
  show ?case by (simp add: units_of_Nil)
next
  case (Cons c' cs)
  then have "c_ID c' \<noteq> cid" and "cid \<notin> c_ID ` set cs"
    by auto
  then show ?case
    using Cons.IH by (simp add: units_of_append units_of_other)
qed

lemma units_of_listed:
  "distinct (map c_ID cs) \<Longrightarrow> c \<in> set cs \<Longrightarrow>
   units_of (c_ID c) (concat (map unit_events cs)) = units_of (c_ID c) (unit_events c)"
proof (induction cs)
  case Nil
  then show ?case by simp
next
  case (Cons c' cs)
  show ?case
  proof (cases "c' = c")
    case True
    with Cons.prems have "c_ID c \<notin> c_ID ` set cs" by simp
    then show ?thesis
      using True by (simp add: units_of_append units_of_absent)
  next
    case False
    with Cons.prems have "c \<in> set cs" and "distinct (map c_ID cs)" and "c_ID c' \<noteq> c_ID c"
      by auto
    then show ?thesis
      using Cons.IH by (simp add: units_of_append units_of_other)
  qed
qed

lemma unit_events_goroutines:
  "e \<in> set (concat (map unit_events cs)) \<Longrightarrow>
   \<exists>cid acts. e = EvGo cid acts \<and> count_list acts ActDone = 1"
proof -
  assume "e \<in> set (concat (map unit_events cs))"
  then obtain c where "e \<in> set (unit_events c)"
    by auto
  then show ?thesis
    using unit_events_cases [of c] count_Done_stop_unit by auto
qed

section \<open>Lemmas about the goroutines\<close>

lemma unit_shape_stop_unit: "unit_shape (stop_unit task wait)"
  by (simp add: unit_shape_def stop_unit_def stop_unit_body_def split: option.splits selected.splits)

lemma unit_shape_pop: "unit_shape (a # rest) \<Longrightarrow> unit_shape rest \<and> (a = ActDone \<longleftrightarrow> rest = [])"
  by (cases rest) (auto simp: unit_shape_def split: if_splits)

lemma sum_pending_zero:
  "sum_list (map (pending w) gs) = 0 \<Longrightarrow> g \<in> set gs \<Longrightarrow> fst g = w \<Longrightarrow> snd g = []"
  by (induction gs) (auto simp: pending_def split: if_splits)

lemma sum_pending_other:
  "\<forall>g \<in> set gs. fst g \<noteq> w \<Longrightarrow> sum_list (map (pending w) gs) = 0"
  by (induction gs) (auto simp: pending_def)

lemma wg_inv_New: "wg_inv sys_New"
  by (simp add: wg_inv_def sys_New_def)

lemma wg_inv_run: "wg_inv s \<Longrightarrow> wg_inv (run_step s)"
  by (cases "run_at s") (auto simp: wg_inv_def run_step_def)

lemma wg_inv_stop: "wg_inv s \<Longrightarrow> wg_inv (stop_step s)"
  by (auto simp: wg_inv_def stop_step_def)

lemma unit_events_shape:
  "e \<in> set (concat (map unit_events cs)) \<Longrightarrow> \<exists>cid task wait. e = EvGo cid (stop_unit task wait)"
proof -
  assume "e \<in> set (concat (map unit_events cs))"
  then obtain c where "e \<in> set (unit_events c)"
    by auto
  then show ?thesis
    using unit_events_cases [of c] by fastforce
qed

lemma wg_inv_shutdown:
  assumes "wg_inv s"
  shows "wg_inv (shutdown_step cl s)"
proof (cases "shutdown_at s")
  case ShNext
  show ?thesis
  proof (cases "namespaces_left s")
    case Nil
    with ShNext assms show ?thesis
      by (auto simp: wg_inv_def shutdown_step_def)
  next
    case (Cons name ns)
    show ?thesis
    proof (cases "Containers cl name")
      case (Inl err)
      with ShNext Cons assms show ?thesis
        by (auto simp: wg_inv_def shutdown_step_def)
    next
      case (Inr cs)
      have "wg_counter s = 0"
        using assms ShNext by (simp add: wg_inv_def)
      moreover have "sum_list (map (pending (wg_id s)) (started s)) = wg_counter s"
        using assms by (simp add: wg_inv_def)
      ultimately have zero: "sum_list (map (pending (wg_id s)) (started s)) = 0"
        by (simp del: sum_list_eq_0_iff)
      have finished: "snd g = []" if "g \<in> set (started s)" for g
      proof (cases "fst g = wg_id s")
        case True
        with zero that show ?thesis by (rule sum_pending_zero)
      next
        case False
        with assms that show ?thesis by (simp add: wg_inv_def)
      qed
      have old: "fst g \<noteq> wg_id s + 1" if "g \<in> set (started s)" for g
        using assms that by (fastforce simp: wg_inv_def)
      then have "sum_list (map (pending (wg_id s + 1)) (started s)) = 0"
        by (intro sum_pending_other) blast
      moreover have "shutdown_step cl s =
          s\<lparr>shutdown_at := ShStart, namespaces_left := ns,
            to_start := concat (map unit_events cs),
            wg_id := wg_id s + 1, wg_counter := 0\<rparr>"
        using ShNext Cons Inr by (simp add: shutdown_step_def)
      ultimately show ?thesis
        using assms finished old unit_events_shape [of _ cs]
        by (auto simp: wg_inv_def)
    qed
  qed
next
  case ShStart
  show ?thesis
  proof (cases "to_start s")
    case Nil
    with ShStart assms show ?thesis
      by (auto simp: wg_inv_def shutdown_step_def)
  next
    case (Cons e es)
    then obtain cid task wait where e: "e = EvGo cid (stop_unit task wait)"
      using assms by (auto simp: wg_inv_def)
    have "stop_unit task wait \<noteq> []"
      by (simp add: stop_unit_def)
    then show ?thesis
      using ShStart Cons e assms unit_shape_stop_unit [of task wait]
      by (auto simp: wg_inv_def shutdown_step_def pending_def)
  qed
qed (use assms in \<open>auto simp: wg_inv_def shutdown_step_def split: sum.splits\<close>)

lemma wg_inv_unit:
  assumes "wg_inv s"
  shows "wg_inv (unit_step i s)"
proof (cases "i < length (started s)")
  case False
  with assms show ?thesis by (simp add: unit_step_def)
next
  case i: True
  obtain w acts where g: "started s ! i = (w, acts)"
    by (cases "started s ! i")
  show ?thesis
  proof (cases acts)
    case Nil
    with assms i g show ?thesis by (simp add: unit_step_def)
  next
    case (Cons a rest)
    have mem: "(w, a # rest) \<in> set (started s)"
      using i g Cons nth_mem by fastforce
    then have shape: "unit_shape (a # rest)" and cur: "w = wg_id s"
      using assms by (auto simp: wg_inv_def)
    then have rest: "unit_shape rest" and last: "a = ActDone \<longleftrightarrow> rest = []"
      using unit_shape_pop by blast+
    let ?gs = "(started s)[i := (w, rest)]"
    have step: "unit_step i s =
        s\<lparr>started := ?gs, wg_counter := (if rest = [] then wg_counter s - 1 else wg_counter s)\<rparr>"
      using i g Cons cur last by (simp add: unit_step_def)
    have sum: "sum_list (map (pending (wg_id s)) ?gs)
        = sum_list (map (pending (wg_id s)) (started s)) + pending (wg_id s) (w, rest)
          - pending (wg_id s) (w, a # rest)"
      using i g Cons by (simp add: map_update sum_list_update)
    have in_set: "g \<in> set ?gs \<Longrightarrow> g = (w, rest) \<or> g \<in> set (started s)" for g
      using set_update_subset_insert [of "started s" i "(w, rest)"] by auto
    have inv: "sum_list (map (pending (wg_id s)) (started s)) = wg_counter s"
      using assms by (simp add: wg_inv_def)
    have counter: "sum_list (map (pending (wg_id s)) ?gs)
        = (if rest = [] then wg_counter s - 1 else wg_counter s)"
      unfolding sum inv using cur by (simp add: pending_def)
    have pcs: "shutdown_at s \<noteq> ShStart \<and> shutdown_at s \<noteq> ShWait \<longrightarrow>
        (if rest = [] then wg_counter s - 1 else wg_counter s) = 0"
      using assms by (auto simp: wg_inv_def)
    have old: "\<forall>g \<in> set (started s). unit_shape (snd g)"
      "\<forall>g \<in> set (started s). fst g \<noteq> wg_id s \<longrightarrow> snd g = []"
      "\<forall>g \<in> set (started s). fst g \<le> wg_id s"
      using assms by (simp_all add: wg_inv_def)
    have 1: "\<forall>g \<in> set ?gs. unit_shape (snd g)"
    proof
      fix g
      assume g: "g \<in> set ?gs"
      show "unit_shape (snd g)"
        using in_set [OF g] rest old(1) by auto
    qed
    have 2: "\<forall>g \<in> set ?gs. fst g \<noteq> wg_id s \<longrightarrow> snd g = []"
    proof
      fix g
      assume g: "g \<in> set ?gs"
      show "fst g \<noteq> wg_id s \<longrightarrow> snd g = []"
        using in_set [OF g] cur old(2) by auto
    qed
    have 3: "\<forall>g \<in> set ?gs. fst g \<le> wg_id s"
    proof
      fix g
      assume g: "g \<in> set ?gs"
      show "fst g \<le> wg_id s"
        using in_set [OF g] cur old(3) by auto
    qed
    have 4: "\<forall>e \<in> set (to_start s). \<exists>cid task wait. e = EvGo cid (stop_unit task wait)"
      using assms by (simp add: wg_inv_def)
    show ?thesis
      unfolding step wg_inv_def
      using 1 2 3 4 pcs by (simp add: counter)
  qed
qed

lemma wg_inv_step: "wg_inv s \<Longrightarrow> wg_inv (step cl s m)"
  by (cases m) (simp_all add: step_def wg_inv_run wg_inv_shutdown wg_inv_unit wg_inv_stop)

lemma wg_inv_exec: "wg_inv s \<Longrightarrow> wg_inv (exec cl moves s)"
  unfolding exec_def by (induction moves arbitrary: s) (simp_all add: wg_inv_step)

lemma mutex_inv_run: "mutex_inv s \<Longrightarrow> mutex_inv (run_step s)"
  by (cases "run_at s") (auto simp: mutex_inv_def run_step_def run_holds_def in_shutdown_def)

lemma mutex_inv_shutdown: "mutex_inv s \<Longrightarrow> mutex_inv (shutdown_step cl s)"
  by (cases "shutdown_at s")
     (auto simp: mutex_inv_def shutdown_step_def run_holds_def in_shutdown_def
       split: sum.splits list.splits event.splits)

lemma mutex_inv_unit: "mutex_inv s \<Longrightarrow> mutex_inv (unit_step i s)"
  by (auto simp: mutex_inv_def unit_step_def run_holds_def in_shutdown_def split: list.splits)

lemma mutex_inv_stop: "mutex_inv s \<Longrightarrow> mutex_inv (stop_step s)"
  by (auto simp: mutex_inv_def stop_step_def run_holds_def in_shutdown_def)

lemma mutex_inv_step: "mutex_inv s \<Longrightarrow> mutex_inv (step cl s m)"
  by (cases m) (simp_all add: step_def mutex_inv_run mutex_inv_shutdown mutex_inv_unit mutex_inv_stop)

lemma mutex_inv_exec: "mutex_inv s \<Longrightarrow> mutex_inv (exec cl moves s)"
  unfolding exec_def by (induction moves arbitrary: s) (simp_all add: mutex_inv_step)

lemma mutex_inv_New: "mutex_inv sys_New"
  by (simp add: mutex_inv_def sys_New_def run_holds_def in_shutdown_def)

lemma running_current: "wg_inv s \<Longrightarrow> g \<in> set (running s) \<Longrightarrow> fst g = wg_id s"
  by (auto simp: wg_inv_def running_def)

lemma exec_append: "exec cl (ms @ ms') s = exec cl ms' (exec cl ms s)"
  by (simp add: exec_def)

lemma exec_Cons: "exec cl (m # ms) s = exec cl ms (step cl s m)"
  by (simp add: exec_def)

lemma exec_Nil: "exec cl [] s = s"
  by (simp add: exec_def)

lemma start_all:
  "shutdown_at s = ShStart \<Longrightarrow> \<not> sys_panicked s \<Longrightarrow> to_start s = E \<Longrightarrow>
   exec cl (replicate (length E) MoveShutdown) s =
     s\<lparr>to_start := [], wg_counter := wg_counter s + length (goroutines_of E),
       started := started s @ map (Pair (wg_id s)) (goroutines_of E)\<rparr>"
proof (induction E arbitrary: s)
  case Nil
  then show ?case by (simp add: exec_Nil goroutines_of_def)
next
  case (Cons e E)
  let ?s1 = "step cl s MoveShutdown"
  have s1: "shutdown_at ?s1 = ShStart" "\<not> sys_panicked ?s1" "to_start ?s1 = E"
    using Cons.prems by (simp_all add: step_def shutdown_step_def split: event.splits)
  have "exec cl (replicate (length (e # E)) MoveShutdown) s
      = exec cl (replicate (length E) MoveShutdown) ?s1"
    by (simp add: exec_Cons)
  also have "\<dots> = ?s1\<lparr>to_start := [], wg_counter := wg_counter ?s1 + length (goroutines_of E),
       started := started ?s1 @ map (Pair (wg_id ?s1)) (goroutines_of E)\<rparr>"
    using s1 by (rule Cons.IH)
  also have "\<dots> = s\<lparr>to_start := [], wg_counter := wg_counter s + length (goroutines_of (e # E)),
       started := started s @ map (Pair (wg_id s)) (goroutines_of (e # E))\<rparr>"
    using Cons.prems by (cases e) (simp_all add: step_def shutdown_step_def goroutines_of_def)
  finally show ?case .
qed

lemma signal_all:
  assumes "\<not> sys_panicked s" and "started s = pre @ map (Pair w) xs"
    and "\<forall>x \<in> set xs. \<exists>a rest. x = a # rest \<and> a \<noteq> ActDone"
    and "k \<le> length xs"
  shows "exec cl (map MoveUnit [length pre..<length pre + k]) s
       = s\<lparr>started := pre @ map (Pair w) (map tl (take k xs) @ drop k xs)\<rparr>"
  using assms(4)
proof (induction k)
  case 0
  then show ?case using assms(2) by (simp add: exec_Nil)
next
  case (Suc k)
  let ?ys = "map tl (take k xs) @ drop k xs"
  let ?s1 = "s\<lparr>started := pre @ map (Pair w) ?ys\<rparr>"
  from Suc.prems have k: "k < length xs" by simp
  then have "xs ! k \<in> set xs" by simp
  then obtain a rest where x: "xs ! k = a # rest" "a \<noteq> ActDone"
    using assms(3) by blast
  have len: "length ?ys = length xs"
    using k by simp
  have at: "?ys ! k = a # rest"
    using k x by (simp add: nth_append)
  have upd: "?ys[k := rest] = map tl (take (Suc k) xs) @ drop (Suc k) xs"
  proof -
    have "drop k xs = (a # rest) # drop (Suc k) xs"
      using k x by (simp add: Cons_nth_drop_Suc [symmetric])
    then show ?thesis
      using k x by (simp add: list_update_append take_Suc_conv_app_nth)
  qed
  have nth: "(pre @ map (Pair w) ?ys) ! (length pre + k) = (w, a # rest)"
    using k at len by (simp add: nth_append del: map_append)
  have upd': "(pre @ map (Pair w) ?ys)[length pre + k := (w, rest)]
      = pre @ map (Pair w) (?ys[k := rest])"
  proof -
    have a: "(pre @ zs)[length pre + k := v] = pre @ zs[k := v]"
      for zs :: "(nat \<times> action list) list" and v
      by (simp add: list_update_append)
    have b: "(map (Pair w) zs)[k := (w, rest)] = map (Pair w) (zs[k := rest])"
      for zs :: "action list list"
      by (simp add: map_update)
    show ?thesis
      by (simp only: a b)
  qed
  have "exec cl (map MoveUnit [length pre..<length pre + Suc k]) s
      = step cl (exec cl (map MoveUnit [length pre..<length pre + k]) s) (MoveUnit (length pre + k))"
    by (simp add: exec_def)
  also have "\<dots> = step cl ?s1 (MoveUnit (length pre + k))"
    using Suc by simp
  also have "\<dots> = s\<lparr>started := pre @ map (Pair w) (?ys[k := rest])\<rparr>"
    using assms(1) k x len nth upd'
    by (simp add: step_def unit_step_def del: map_append)
  finally show ?case
    by (simp only: upd)
qed

lemma unit_events_length: "length (concat (map unit_events cs)) \<le> length cs"
proof (induction cs)
  case Nil
  show ?case by simp
next
  case (Cons c cs)
  have "length (unit_events c) \<le> 1"
    using unit_events_cases [of c] by auto
  with Cons show ?case by simp
qed

lemma length_filter_fst_update:
  fixes xs :: "('a \<times> 'b) list"
  shows "i < length xs \<Longrightarrow>
   length (filter (\<lambda>g. fst g = w) (xs[i := (fst (xs ! i), y)])) = length (filter (\<lambda>g. fst g = w) xs)"
proof -
  assume i: "i < length xs"
  have f: "length (filter (\<lambda>g. fst g = w) zs) = length (filter (\<lambda>a. a = w) (map fst zs))"
    for zs :: "('a \<times> 'b) list"
    by (induction zs) auto
  have m: "map fst (xs[i := (fst (xs ! i), y)]) = map fst xs"
    using i by (simp add: map_update list_update_same_conv)
  show ?thesis
    by (simp only: f m)
qed

lemma one_inv_unit: "one_inv s \<Longrightarrow> one_inv (unit_step i s)"
proof -
  assume inv: "one_inv s"
  then have wg: "wg_inv (unit_step i s)"
    by (simp add: one_inv_def wg_inv_unit)
  have "length (current (unit_step i s)) = length (current s)"
    by (simp add: current_def unit_step_def length_filter_fst_update split: list.splits)
  moreover have "to_start (unit_step i s) = to_start s"
    by (simp add: unit_step_def split: list.splits)
  ultimately show ?thesis
    using inv wg by (simp add: one_inv_def)
qed

lemma one_inv_run: "one_inv s \<Longrightarrow> one_inv (run_step s)"
  using wg_inv_run [of s]
  by (cases "run_at s") (auto simp: one_inv_def current_def run_step_def)

lemma one_inv_stop: "one_inv s \<Longrightarrow> one_inv (stop_step s)"
  using wg_inv_stop [of s]
  by (auto simp: one_inv_def current_def stop_step_def)

lemma one_inv_shutdown:
  assumes one: "\<forall>name cs. Containers cl name = Inr cs \<longrightarrow> length cs \<le> 1"
    and inv: "one_inv s"
  shows "one_inv (shutdown_step cl s)"
proof -
  have wg: "wg_inv (shutdown_step cl s)"
    using inv by (simp add: one_inv_def wg_inv_shutdown)
  have "length (current (shutdown_step cl s)) + length (to_start (shutdown_step cl s)) \<le> 1"
  proof (cases "shutdown_at s")
    case ShNext
    show ?thesis
    proof (cases "namespaces_left s")
      case Nil
      with ShNext inv show ?thesis
        by (simp add: one_inv_def current_def shutdown_step_def)
    next
      case (Cons name ns)
      show ?thesis
      proof (cases "Containers cl name")
        case (Inl err)
        with ShNext Cons inv show ?thesis
          by (simp add: one_inv_def current_def shutdown_step_def)
      next
        case (Inr cs)
        have "\<forall>g \<in> set (started s). fst g \<le> wg_id s"
          using inv by (simp add: one_inv_def wg_inv_def)
        then have "filter (\<lambda>g. fst g = wg_id s + 1) (started s) = []"
          by (auto simp: filter_empty_conv)
        moreover have "length (concat (map unit_events cs)) \<le> 1"
          using unit_events_length [of cs] one Inr by fastforce
        ultimately show ?thesis
          using ShNext Cons Inr by (simp add: current_def shutdown_step_def)
      qed
    qed
  next
    case ShStart
    with inv show ?thesis
      by (auto simp: one_inv_def current_def shutdown_step_def split: list.splits event.splits)
  qed (use inv in \<open>auto simp: one_inv_def current_def shutdown_step_def split: sum.splits\<close>)
  with wg show ?thesis
    by (simp add: one_inv_def)
qed

lemma one_inv_step:
  "\<forall>name cs. Containers cl name = Inr cs \<longrightarrow> length cs \<le> 1 \<Longrightarrow> one_inv s \<Longrightarrow>
   one_inv (step cl s m)"
  by (cases m) (simp_all add: step_def one_inv_run one_inv_shutdown one_inv_unit one_inv_stop)

lemma one_inv_exec:
  "\<forall>name cs. Containers cl name = Inr cs \<longrightarrow> length cs \<le> 1 \<Longrightarrow> one_inv s \<Longrightarrow>
   one_inv (exec cl moves s)"
  unfolding exec_def by (induction moves arbitrary: s) (simp_all add: one_inv_step)

lemma one_inv_New: "one_inv sys_New"
  by (simp add: one_inv_def wg_inv_New) (simp add: current_def sys_New_def)

lemma running_length: "wg_inv s \<Longrightarrow> length (running s) \<le> length (current s)"
proof -
  assume "wg_inv s"
  then have "\<forall>g \<in> set (started s). snd g \<noteq> [] \<longrightarrow> fst g = wg_id s"
    by (auto simp: wg_inv_def)
  then have "running s = filter (\<lambda>g. snd g \<noteq> []) (current s)"
    unfolding running_def current_def filter_filter
    by (intro filter_cong) auto
  then show ?thesis by simp
qed

lemma one_running:
  "\<forall>name cs. Containers cl name = Inr cs \<longrightarrow> length cs \<le> 1 \<Longrightarrow>
   length (running (exec cl moves sys_New)) \<le> 1"
proof -
  assume "\<forall>name cs. Containers cl name = Inr cs \<longrightarrow> length cs \<le> 1"
  then have "one_inv (exec cl moves sys_New)"
    using one_inv_New by (rule one_inv_exec)
  then show ?thesis
    using running_length [of "exec cl moves sys_New"] by (simp add: one_inv_def)
qed

lemma goroutines_signal_first:
  "\<forall>e \<in> set E. \<exists>cid task wait. e = EvGo cid (stop_unit task wait) \<Longrightarrow>
   x \<in> set (goroutines_of E) \<Longrightarrow> \<exists>rest. x = ActKill SIGTERM # rest \<and> rest \<noteq> []"
proof -
  assume E: "\<forall>e \<in> set E. \<exists>cid task wait. e = EvGo cid (stop_unit task wait)"
    and "x \<in> set (goroutines_of E)"
  then obtain e where "e \<in> set E" and "x \<in> set (case e of EvGo cid acts \<Rightarrow> [acts] | _ \<Rightarrow> [])"
    by (auto simp: goroutines_of_def)
  with E obtain task wait where "x = stop_unit task wait"
    by fastforce
  then show ?thesis
    by (simp add: stop_unit_def stop_unit_body_def split: option.splits selected.splits)
qed

























lemmas example_sys_simps =
  exec_def step_def run_step_def shutdown_step_def unit_step_def sys_New_def
  running_def example_client2_def example_container_def example_container2_def
  example_task_def unit_events_def stopContainers_step_def stop_unit_def
  stop_unit_body_def select_exit_def Second_def

section \<open>Properties of the reconciler\<close>

text \<open>
  C4. A listed container (container IDs are unique within a namespace) whose labels read
  \<open>desired\<close> under the status label (the empty string when the label is absent): when
  \<open>desired\<close> differs from the actual status, the changes \<open>monitor\<close> returns for it are
  exactly one startChange for running, one stopChange for stopped, one deleteChange for
  delete; for any other label value, such as paused, there is no change for it.
\<close>

theorem monitor_matching_change:
  assumes "Containers cl name = Inr cs" and "distinct (map c_ID cs)" and "c \<in> set cs"
    and "c_Labels c = Inr labels" and "map_index labels StatusLabel = desired"
  shows "\<exists>changes. monitor cl name = Inr changes \<and>
           (desired \<noteq> ActualStatus c \<longrightarrow>
              (desired = Running \<longrightarrow> changes_for c changes = [startChange c]) \<and>
              (desired = Stopped \<longrightarrow> changes_for c changes = [stopChange c]) \<and>
              (desired = DeleteStatus \<longrightarrow> changes_for c changes = [deleteChange c])) \<and>
           (desired \<noteq> Running \<and> desired \<noteq> Stopped \<and> desired \<noteq> DeleteStatus \<longrightarrow>
              changes_for c changes = [])"
proof -
  have m: "monitor cl name = Inr (foldl monitor_step [] cs)"
    using assms(1) by (simp add: monitor_def)
  have "distinct cs"
    using assms(2) by (rule distinct_IDs)
  then have one: "changes_for c (foldl monitor_step [] cs) = monitor_step [] c"
    using assms(3) by (rule changes_for_distinct)
  have step: "monitor_step [] c =
      (if desired = ActualStatus c then []
       else if desired = Running then [startChange c]
       else if desired = Stopped then [stopChange c]
       else if desired = DeleteStatus then [deleteChange c]
       else [])"
    using assms(4,5) by (simp add: monitor_step_def isSameStatus_ActualStatus)
  have distinct_status: "Running \<noteq> Stopped" "Running \<noteq> DeleteStatus" "Stopped \<noteq> DeleteStatus"
    by (simp_all add: Running_def Stopped_def DeleteStatus_def)
  show ?thesis
    using distinct_status by (simp add: m one step)
qed

theorem monitor_matching_change_witness:
  "monitor
     \<lparr>NamespaceList = Inr [''default''],
      Containers = (\<lambda>name. Inr
        [\<lparr>c_ID = ''web1'', c_Labels = Inr [StatusLabel \<mapsto> ''running''],
          c_Task = Inl ErrNotFound\<rparr>])\<rparr> ''default''
   = Inr [startChange \<lparr>c_ID = ''web1'', c_Labels = Inr [StatusLabel \<mapsto> ''running''],
          c_Task = Inl ErrNotFound\<rparr>]"
  using monitor_matching_change
    [of "\<lparr>NamespaceList = Inr [''default''],
      Containers = (\<lambda>name. Inr
        [\<lparr>c_ID = ''web1'', c_Labels = Inr [StatusLabel \<mapsto> ''running''],
          c_Task = Inl ErrNotFound\<rparr>])\<rparr>"
      "''default''"
      "[\<lparr>c_ID = ''web1'', c_Labels = Inr [StatusLabel \<mapsto> ''running''],
          c_Task = Inl ErrNotFound\<rparr>]"
      "\<lparr>c_ID = ''web1'', c_Labels = Inr [StatusLabel \<mapsto> ''running''],
          c_Task = Inl ErrNotFound\<rparr>"
      "[StatusLabel \<mapsto> ''running'']" "''running''"]
  by (simp add: monitor_def monitor_step_def isSameStatus_def map_index_def
      Running_def Stopped_def DeleteStatus_def ActualStatus_def changes_for_def)

text \<open>
  C5. A container whose desired status, read from its labels in this pass, equals its
  actual status, computed in this pass: \<open>monitor\<close> returns no change for it.
\<close>

theorem monitor_same_status_no_change:
  assumes "Containers cl name = Inr cs" and "c \<in> set cs"
    and "c_Labels c = Inr labels" and "map_index labels StatusLabel = ActualStatus c"
  shows "\<exists>changes. monitor cl name = Inr changes \<and> changes_for c changes = []"
proof -
  have "monitor_step [] c = []"
    using assms(3,4) by (simp add: monitor_step_def isSameStatus_ActualStatus)
  then have "changes_for c (foldl monitor_step [] cs) = []"
    by (rule changes_for_none)
  then show ?thesis
    using assms(1) by (simp add: monitor_def)
qed

theorem monitor_same_status_no_change_witness:
  "monitor
     \<lparr>NamespaceList = Inr [''default''],
      Containers = (\<lambda>name. Inr
        [\<lparr>c_ID = ''web1'', c_Labels = Inr [StatusLabel \<mapsto> ''running''],
          c_Task = Inr \<lparr>Status = Inr ''running'', Wait = Inr None,
            Kill = (\<lambda>sig. None), exit_wins_tie = True\<rparr>\<rparr>])\<rparr> ''default''
   = Inr []"
  using monitor_same_status_no_change
    [of "\<lparr>NamespaceList = Inr [''default''],
      Containers = (\<lambda>name. Inr
        [\<lparr>c_ID = ''web1'', c_Labels = Inr [StatusLabel \<mapsto> ''running''],
          c_Task = Inr \<lparr>Status = Inr ''running'', Wait = Inr None,
            Kill = (\<lambda>sig. None), exit_wins_tie = True\<rparr>\<rparr>])\<rparr>"
      "''default''"
      "[\<lparr>c_ID = ''web1'', c_Labels = Inr [StatusLabel \<mapsto> ''running''],
          c_Task = Inr \<lparr>Status = Inr ''running'', Wait = Inr None,
            Kill = (\<lambda>sig. None), exit_wins_tie = True\<rparr>\<rparr>]"
      "\<lparr>c_ID = ''web1'', c_Labels = Inr [StatusLabel \<mapsto> ''running''],
          c_Task = Inr \<lparr>Status = Inr ''running'', Wait = Inr None,
            Kill = (\<lambda>sig. None), exit_wins_tie = True\<rparr>\<rparr>"
      "[StatusLabel \<mapsto> ''running'']"]
  by (simp add: monitor_def monitor_step_def isSameStatus_def map_index_def
      ActualStatus_def changes_for_def)

text \<open>
  C6 as stated fails: a container with no task and the label value paused gets no change,
  though its desired status is not stopped.
\<close>

theorem no_task_paused_counterexample:
  "c_Task \<lparr>c_ID = ''web1'', c_Labels = Inr [StatusLabel \<mapsto> ''paused''],
           c_Task = Inl ErrNotFound\<rparr> = Inl ErrNotFound
   \<and> monitor
       \<lparr>NamespaceList = Inr [''default''],
        Containers = (\<lambda>name. Inr
          [\<lparr>c_ID = ''web1'', c_Labels = Inr [StatusLabel \<mapsto> ''paused''],
            c_Task = Inl ErrNotFound\<rparr>])\<rparr> ''default'' = Inr []
   \<and> map_index [StatusLabel \<mapsto> ''paused''] StatusLabel = ''paused''
   \<and> ''paused'' \<noteq> Stopped"
  by (simp add: monitor_def monitor_step_def isSameStatus_def map_index_def
      Running_def Stopped_def DeleteStatus_def)

text \<open>
  C6, amended. For a container whose task cannot be loaded, the actual status is
  Stopped: isSameStatus holds exactly when the desired status is stopped, so never for
  running; and when the container is listed, its labels can be read and its desired
  status is one of running, stopped and delete, \<open>monitor\<close> returns no change for it exactly
  when the desired status is stopped.
\<close>

theorem no_task_compares_as_stopped:
  assumes "c_Task c = Inl err"
  shows "ActualStatus c = Stopped \<and>
         (isSameStatus desired c \<longleftrightarrow> desired = Stopped) \<and>
         \<not> isSameStatus Running c \<and>
         (Containers cl name = Inr cs \<longrightarrow> distinct (map c_ID cs) \<longrightarrow> c \<in> set cs \<longrightarrow>
          c_Labels c = Inr labels \<longrightarrow>
          map_index labels StatusLabel \<in> {Running, Stopped, DeleteStatus} \<longrightarrow>
          (\<exists>changes. monitor cl name = Inr changes \<and>
             (changes_for c changes = [] \<longleftrightarrow> map_index labels StatusLabel = Stopped)))"
proof -
  have actual: "ActualStatus c = Stopped"
    using assms by (simp add: ActualStatus_def)
  have same: "isSameStatus d c \<longleftrightarrow> d = Stopped" for d
    by (simp add: isSameStatus_ActualStatus actual)
  have distinct_status: "Running \<noteq> Stopped" "DeleteStatus \<noteq> Stopped"
    "DeleteStatus \<noteq> Running"
    by (simp_all add: Running_def Stopped_def DeleteStatus_def)
  have listed: "\<exists>changes. monitor cl name = Inr changes \<and>
      (changes_for c changes = [] \<longleftrightarrow> map_index labels StatusLabel = Stopped)"
    if cs: "Containers cl name = Inr cs" and d: "distinct (map c_ID cs)" and c: "c \<in> set cs"
      and l: "c_Labels c = Inr labels"
      and r: "map_index labels StatusLabel \<in> {Running, Stopped, DeleteStatus}"
  proof -
    have "distinct cs"
      using d by (rule distinct_IDs)
    then have one: "changes_for c (foldl monitor_step [] cs) = monitor_step [] c"
      using c by (rule changes_for_distinct)
    have "monitor_step [] c = [] \<longleftrightarrow> map_index labels StatusLabel = Stopped"
      using l r distinct_status by (auto simp: monitor_step_def same)
    then show ?thesis
      using cs by (simp add: monitor_def one)
  qed
  show ?thesis
    using actual same [of desired] same [of Running] distinct_status(1) listed by blast
qed

theorem no_task_compares_as_stopped_witness:
  "c_Task \<lparr>c_ID = ''web1'', c_Labels = Inr [StatusLabel \<mapsto> ''delete''],
           c_Task = Inl ErrNotFound\<rparr> = Inl ErrNotFound
   \<and> ActualStatus \<lparr>c_ID = ''web1'', c_Labels = Inr [StatusLabel \<mapsto> ''delete''],
           c_Task = Inl ErrNotFound\<rparr> = ''stopped''
   \<and> \<not> isSameStatus ''running'' \<lparr>c_ID = ''web1'',
           c_Labels = Inr [StatusLabel \<mapsto> ''delete''], c_Task = Inl ErrNotFound\<rparr>
   \<and> monitor
       \<lparr>NamespaceList = Inr [''default''],
        Containers = (\<lambda>name. Inr
          [\<lparr>c_ID = ''web1'', c_Labels = Inr [StatusLabel \<mapsto> ''delete''],
            c_Task = Inl ErrNotFound\<rparr>])\<rparr> ''default''
     = Inr [deleteChange \<lparr>c_ID = ''web1'', c_Labels = Inr [StatusLabel \<mapsto> ''delete''],
            c_Task = Inl ErrNotFound\<rparr>]"
  using no_task_compares_as_stopped
    [of "\<lparr>c_ID = ''web1'', c_Labels = Inr [StatusLabel \<mapsto> ''delete''],
           c_Task = Inl ErrNotFound\<rparr>"
      ErrNotFound "''delete''"
      "\<lparr>NamespaceList = Inr [''default''],
        Containers = (\<lambda>name. Inr
          [\<lparr>c_ID = ''web1'', c_Labels = Inr [StatusLabel \<mapsto> ''delete''],
            c_Task = Inl ErrNotFound\<rparr>])\<rparr>"
      "''default''"
      "[\<lparr>c_ID = ''web1'', c_Labels = Inr [StatusLabel \<mapsto> ''delete''],
            c_Task = Inl ErrNotFound\<rparr>]"
      "[StatusLabel \<mapsto> ''delete'']"]
  by (simp add: monitor_def monitor_step_def isSameStatus_def map_index_def
      Running_def Stopped_def DeleteStatus_def ActualStatus_def changes_for_def)

section \<open>Properties of toStrings and WithBossConfig\<close>

text \<open>
  C10 as stated fails twice. With the label foo, which has no separator, the option
  returns the error of the spec step when that step fails: it runs first, and the
  labels are never parsed. And of the labels a=1 and a=2, both of the form key=value,
  only the later one is in the map.
\<close>

theorem WithBossConfig_spec_error_counterexample:
  "WithBossConfig
     \<lparr>ID = ''web1'', Image = ''nginx'', Env = [], Args = [], Labels = [''foo''],
      Network = ''host''\<rparr>
     \<lparr>WithNewSpec = Some (ErrOther ''mkdir''), WithContainerExtension = None\<rparr>
     \<lparr>cc_Labels = Map.empty, cc_Extensions = Map.empty\<rparr>
   = Inr (Some (ErrOther ''mkdir''), \<lparr>cc_Labels = Map.empty, cc_Extensions = Map.empty\<rparr>)
   \<and> toStrings [''a=1'', ''a=2''] = Inr [''a'' \<mapsto> ''2'']
   \<and> [''a'' \<mapsto> ''2''] ''a'' \<noteq> Some ''1''"
  by (simp add: WithBossConfig_def toStrings_def SplitN2_def slice_index_def)

text \<open>
  C10, amended. toStrings panics with index out of range [1] with length 1 when a label
  has no separator, and so does the option of WithBossConfig once its spec step has
  succeeded (when that step fails, its error is returned before the labels are parsed).
  For labels of the form key=value, the key holding no separator, toStrings returns the
  map of the keys to their values, a later label replacing an earlier one with the same
  key; the value is all that follows the first separator. With keys that are all
  different, every label's key is mapped to its value, and the option stores that map
  as the labels of the container.
\<close>

theorem WithBossConfig_labels:
  "((\<exists>s \<in> set ss. CHR ''='' \<notin> set s) \<longrightarrow> toStrings ss = Inl (IndexOutOfRange 1 1))
   \<and> (WithNewSpec env = None \<longrightarrow> (\<exists>s \<in> set (Labels config). CHR ''='' \<notin> set s) \<longrightarrow>
        WithBossConfig config env c = Inl (IndexOutOfRange 1 1))
   \<and> ((\<forall>(k, v) \<in> set kvs. CHR ''='' \<notin> set k) \<longrightarrow>
        toStrings (map (\<lambda>(k, v). k @ ''='' @ v) kvs) = Inr (map_of (rev kvs))
        \<and> (distinct (map fst kvs) \<longrightarrow> (\<forall>(k, v) \<in> set kvs. map_of (rev kvs) k = Some v))
        \<and> (WithNewSpec env = None \<longrightarrow> Labels config = map (\<lambda>(k, v). k @ ''='' @ v) kvs \<longrightarrow>
             (\<exists>err c'. WithBossConfig config env c = Inr (err, c')
                \<and> cc_Labels c' = map_of (rev kvs))))"
proof (intro conjI impI)
  assume "\<exists>s \<in> set ss. CHR ''='' \<notin> set s"
  then show "toStrings ss = Inl (IndexOutOfRange 1 1)"
    unfolding toStrings_def using toStrings_loop_panic by blast
next
  assume "WithNewSpec env = None" and "\<exists>s \<in> set (Labels config). CHR ''='' \<notin> set s"
  moreover from this have "toStrings (Labels config) = Inl (IndexOutOfRange 1 1)"
    unfolding toStrings_def using toStrings_loop_panic by blast
  ultimately show "WithBossConfig config env c = Inl (IndexOutOfRange 1 1)"
    by (simp add: WithBossConfig_def)
next
  assume "\<forall>(k, v) \<in> set kvs. CHR ''='' \<notin> set k"
  then show "toStrings (map (\<lambda>(k, v). k @ ''='' @ v) kvs) = Inr (map_of (rev kvs))"
    using toStrings_loop_pairs [of kvs Map.empty] by (simp add: toStrings_def)
next
  assume "distinct (map fst kvs)"
  then have "map_of (rev kvs) k = Some v" if "(k, v) \<in> set kvs" for k v
    using that by (simp add: rev_map [symmetric])
  then show "\<forall>(k, v) \<in> set kvs. map_of (rev kvs) k = Some v"
    by blast
next
  assume "\<forall>(k, v) \<in> set kvs. CHR ''='' \<notin> set k"
  then have "toStrings (map (\<lambda>(k, v). k @ ''='' @ v) kvs) = Inr (map_of (rev kvs))"
    using toStrings_loop_pairs [of kvs Map.empty] by (simp add: toStrings_def)
  moreover assume "WithNewSpec env = None"
    and "Labels config = map (\<lambda>(k, v). k @ ''='' @ v) kvs"
  ultimately show "\<exists>err c'. WithBossConfig config env c = Inr (err, c')
      \<and> cc_Labels c' = map_of (rev kvs)"
    by (simp add: WithBossConfig_def Let_def split: option.splits)
qed

theorem WithBossConfig_labels_witness:
  "WithBossConfig
     \<lparr>ID = ''web1'', Image = ''nginx'', Env = [], Args = [],
      Labels = [''io.boss/restart.status=running'', ''foo''], Network = ''host''\<rparr>
     \<lparr>WithNewSpec = None, WithContainerExtension = None\<rparr>
     \<lparr>cc_Labels = Map.empty, cc_Extensions = Map.empty\<rparr>
   = Inl (IndexOutOfRange 1 1)
   \<and> toStrings [''io.boss/restart.status=running'', ''foo''] = Inl (IndexOutOfRange 1 1)
   \<and> toStrings [''tier=a=b'', ''io.boss/restart.status=running'']
     = Inr [''tier'' \<mapsto> ''a=b'', ''io.boss/restart.status'' \<mapsto> ''running'']
   \<and> (\<exists>err c'. WithBossConfig
         \<lparr>ID = ''web1'', Image = ''nginx'', Env = [], Args = [],
          Labels = [''tier=a=b'', ''io.boss/restart.status=running''], Network = ''host''\<rparr>
         \<lparr>WithNewSpec = None, WithContainerExtension = None\<rparr>
         \<lparr>cc_Labels = Map.empty, cc_Extensions = Map.empty\<rparr> = Inr (err, c')
       \<and> cc_Labels c'
           = [''tier'' \<mapsto> ''a=b'', ''io.boss/restart.status'' \<mapsto> ''running''])"
  using
    WithBossConfig_labels
      [of "[''io.boss/restart.status=running'', ''foo'']"
        "\<lparr>WithNewSpec = None, WithContainerExtension = None\<rparr>"
        "\<lparr>ID = ''web1'', Image = ''nginx'', Env = [], Args = [],
          Labels = [''io.boss/restart.status=running'', ''foo''], Network = ''host''\<rparr>"
        "\<lparr>cc_Labels = Map.empty, cc_Extensions = Map.empty\<rparr>"
        "[]"]
    WithBossConfig_labels
      [of "[]"
        "\<lparr>WithNewSpec = None, WithContainerExtension = None\<rparr>"
        "\<lparr>ID = ''web1'', Image = ''nginx'', Env = [], Args = [],
          Labels = [''tier=a=b'', ''io.boss/restart.status=running''], Network = ''host''\<rparr>"
        "\<lparr>cc_Labels = Map.empty, cc_Extensions = Map.empty\<rparr>"
        "[(''tier'', ''a=b''), (''io.boss/restart.status'', ''running'')]"]
  by simp

section \<open>Properties of the Monitor\<close>

text \<open>
  C1 as stated fails. With the channel closed, the iteration of Run returns having
  slept and taken the mutex, and nothing else: it does not call Shutdown, whose pass
  over the same runtime would signal the task of web1.
\<close>

theorem Run_exit_counterexample:
  "Run [example_client] 0 \<lparr>shutdownCh_closed = True, mu_locked = False, trace = []\<rparr>
     = RunReturned \<lparr>shutdownCh_closed = True, mu_locked = True,
                    trace = [EvSleep 10000000000, EvLock]\<rparr>
   \<and> shutdown_events example_client
     = [EvGo ''web1'' [ActKill SIGTERM, ActExit 1000000000, ActDelete, ActDone], EvWgWait]"
  by (simp add: Run_def mu_Lock_def emit_def Second_def shutdown_events_def stop_events_def
      unit_events_def example_client_def example_container_def
      example_task_def stopContainers_step_def stop_unit_def
      stop_unit_body_def select_exit_def)

text \<open>
  C1, amended. An iteration of the loop of Run that finds the mutex free sleeps for the
  interval (ten seconds when the interval is 0) and takes the mutex. When a stop has
  been requested (the channel is closed) Run returns at once, whatever iterations
  would follow, and it calls neither Shutdown nor reconcile. When no stop has been
  requested it makes one reconcile pass, applying the changes of \<open>monitor\<close> namespace
  after namespace, releases the mutex and goes on with the next iteration, which starts
  by sleeping for the interval.
\<close>

theorem Run_iteration:
  assumes "\<not> mu_locked s" and "iv = (if interval = 0 then 10 * Second else interval)"
  shows "(shutdownCh_closed s \<longrightarrow>
            (\<exists>s'. Run (cl # ticks) interval s = RunReturned s'
               \<and> trace s' = trace s @ [EvSleep iv, EvLock]))
       \<and> (\<not> shutdownCh_closed s \<longrightarrow>
            (\<exists>s'. Run [cl] interval s = RunLooping s'
               \<and> Run (cl # ticks) interval s = Run ticks interval s'
               \<and> trace s' = trace s @ [EvSleep iv, EvLock] @ reconcile_events cl @ [EvUnlock]
               \<and> \<not> mu_locked s' \<and> \<not> shutdownCh_closed s'
               \<and> (\<exists>s''. Run [cl, cl'] interval s = RunLooping s''
                    \<and> trace s'' = trace s' @ [EvSleep iv, EvLock] @ reconcile_events cl' @ [EvUnlock])))"
proof (intro conjI impI)
  assume "shutdownCh_closed s"
  then show "\<exists>s'. Run (cl # ticks) interval s = RunReturned s'
      \<and> trace s' = trace s @ [EvSleep iv, EvLock]"
    using assms by (simp add: Run_def Run_loop_exit del: Run_loop.simps)
next
  assume op: "\<not> shutdownCh_closed s"
  let ?s' = "s\<lparr>mu_locked := False,
                trace := trace s @ [EvSleep iv, EvLock] @ reconcile_events cl @ [EvUnlock]\<rparr>"
  have step: "Run_loop (cl # ts) iv s = Run_loop ts iv ?s'" for ts
    using assms(1) op by (rule Run_loop_pass)
  have s': "\<not> mu_locked ?s'" "\<not> shutdownCh_closed ?s'"
    using op by simp_all
  have step': "Run_loop [cl'] iv ?s' = Run_loop [] iv
      (?s'\<lparr>mu_locked := False,
            trace := trace ?s' @ [EvSleep iv, EvLock] @ reconcile_events cl' @ [EvUnlock]\<rparr>)"
    using s' by (rule Run_loop_pass)
  have iv: "Run ts interval x = Run_loop ts iv x" for ts x
    using assms(2) by (simp add: Run_def)
  show "\<exists>s'. Run [cl] interval s = RunLooping s'
      \<and> Run (cl # ticks) interval s = Run ticks interval s'
      \<and> trace s' = trace s @ [EvSleep iv, EvLock] @ reconcile_events cl @ [EvUnlock]
      \<and> \<not> mu_locked s' \<and> \<not> shutdownCh_closed s'
      \<and> (\<exists>s''. Run [cl, cl'] interval s = RunLooping s''
           \<and> trace s'' = trace s' @ [EvSleep iv, EvLock] @ reconcile_events cl' @ [EvUnlock])"
    unfolding iv
    apply (rule exI [of _ ?s'])
    apply (simp only: step step')
    using op apply simp
    done
qed

theorem Run_iteration_witness:
  "Run [example_client] 0 \<lparr>shutdownCh_closed = True, mu_locked = False, trace = []\<rparr>
     = RunReturned \<lparr>shutdownCh_closed = True, mu_locked = True,
                    trace = [EvSleep 10000000000, EvLock]\<rparr>
   \<and> Run [example_client, example_client] 0 New
     = RunLooping \<lparr>shutdownCh_closed = False, mu_locked = False,
         trace = [EvSleep 10000000000, EvLock,
                  EvApply ''default'' (stopChange example_container), EvUnlock,
                  EvSleep 10000000000, EvLock,
                  EvApply ''default'' (stopChange example_container), EvUnlock]\<rparr>"
  using
    Run_iteration [of "\<lparr>shutdownCh_closed = True, mu_locked = False, trace = []\<rparr>"
      10000000000 0 example_client "[]" example_client]
    Run_iteration [of New 10000000000 0 example_client "[]" example_client]
  by (simp add: New_def Run_def mu_Lock_def mu_Unlock_def emit_def Second_def reconcile_def
      reconcile_namespace_def apply_changes_def monitor_def monitor_step_def
      isSameStatus_def map_index_def Running_def Stopped_def DeleteStatus_def
      example_client_def example_container_def example_task_def)




text \<open>
  C3 as stated fails. For a container with a live task whose \<open>Wait\<close> fails,
  stopContainers starts no goroutine: the task is sent no signal.
\<close>

theorem stopContainers_wait_error_counterexample:
  "c_Task (example_container\<lparr>c_Task := Inr (example_task\<lparr>Wait := Inl (ErrOther ''unavailable'')\<rparr>)\<rparr>)
     = Inr (example_task\<lparr>Wait := Inl (ErrOther ''unavailable'')\<rparr>)
   \<and> stopContainers
       \<lparr>NamespaceList = Inr [''default''],
        Containers = (\<lambda>name. Inr
          [example_container\<lparr>c_Task := Inr (example_task\<lparr>Wait := Inl (ErrOther ''unavailable'')\<rparr>)\<rparr>])\<rparr>
       ''default'' New
     = Returned (None, \<lparr>shutdownCh_closed = False, mu_locked = False, trace = [EvWgWait]\<rparr>)"
  by (simp add: New_def emit_def example_container_def
      example_task_def stopContainers_def stopContainers_step_def)

text \<open>
  C3, amended. For a listed container (IDs are unique in a namespace) whose task loads
  and whose \<open>Wait\<close> succeeds, stopContainers starts exactly one goroutine. It first sends
  SIGTERM. If that fails it ends there. Otherwise it waits for the exit and for a timer
  of ten seconds: when the exit comes before the ten seconds it deletes the task; when
  the task exits later or never, it ends at the timeout. It never sends SIGKILL. Every
  goroutine calls \<open>wg.Done()\<close> once, as its last act, and stopContainers returns from
  \<open>wg.Wait()\<close> after all goroutines it started.
\<close>

theorem stopContainers_unit:
  assumes "Containers cl name = Inr cs" and "distinct (map c_ID cs)" and "c \<in> set cs"
    and "c_Task c = Inr task" and "Wait task = Inr wait"
  shows "\<exists>evs. stopContainers cl name s = Returned (None, s\<lparr>trace := trace s @ evs @ [EvWgWait]\<rparr>)
           \<and> (\<forall>e \<in> set evs. \<exists>cid acts. e = EvGo cid acts \<and> count_list acts ActDone = 1)
           \<and> units_of (c_ID c) evs = [stop_unit task wait]
           \<and> hd (stop_unit task wait) = ActKill SIGTERM
           \<and> last (stop_unit task wait) = ActDone
           \<and> ActKill SIGKILL \<notin> set (stop_unit task wait)
           \<and> (Kill task SIGTERM = None \<longrightarrow>
                (\<forall>d. wait = Some d \<and> d < 10 * Second \<longrightarrow>
                   stop_unit task wait = [ActKill SIGTERM, ActExit d, ActDelete, ActDone])
              \<and> (wait = None \<or> (\<exists>d. wait = Some d \<and> 10 * Second < d) \<longrightarrow>
                   stop_unit task wait = [ActKill SIGTERM, ActTimeout (10 * Second), ActDone]))
           \<and> (Kill task SIGTERM \<noteq> None \<longrightarrow> stop_unit task wait = [ActKill SIGTERM, ActDone])"
proof -
  let ?evs = "concat (map unit_events cs)"
  have ret: "stopContainers cl name s = Returned (None, s\<lparr>trace := trace s @ ?evs @ [EvWgWait]\<rparr>)"
    using assms(1) by (rule stopContainers_listed)
  have gos: "\<forall>e \<in> set ?evs. \<exists>cid acts. e = EvGo cid acts \<and> count_list acts ActDone = 1"
    using unit_events_goroutines by blast
  have "units_of (c_ID c) ?evs = units_of (c_ID c) (unit_events c)"
    using assms(2,3) by (rule units_of_listed)
  then have unit: "units_of (c_ID c) ?evs = [stop_unit task wait]"
    using assms(4,5) by (simp add: unit_events_launched units_of_def)
  have first: "hd (stop_unit task wait) = ActKill SIGTERM"
    by (simp add: stop_unit_def stop_unit_body_def split: option.splits selected.splits)
  have final: "last (stop_unit task wait) = ActDone"
    by (simp add: stop_unit_def)
  have no_kill: "ActKill SIGKILL \<notin> set (stop_unit task wait)"
    by (simp add: stop_unit_def stop_unit_body_def split: option.splits selected.splits)
  have in_time: "stop_unit task wait = [ActKill SIGTERM, ActExit d, ActDelete, ActDone]"
    if "Kill task SIGTERM = None" and "wait = Some d \<and> d < 10 * Second" for d
    using that by (simp add: stop_unit_def stop_unit_body_def select_exit_def)
  have timeout: "stop_unit task wait = [ActKill SIGTERM, ActTimeout (10 * Second), ActDone]"
    if "Kill task SIGTERM = None" and "wait = None \<or> (\<exists>d. wait = Some d \<and> 10 * Second < d)"
    using that by (auto simp: stop_unit_def stop_unit_body_def select_exit_def)
  have failed: "stop_unit task wait = [ActKill SIGTERM, ActDone]"
    if "Kill task SIGTERM \<noteq> None"
    using that by (auto simp: stop_unit_def stop_unit_body_def)
  show ?thesis
    apply (rule exI [of _ ?evs])
    using ret gos unit first final no_kill in_time timeout failed
    apply blast
    done
qed

theorem stopContainers_unit_witness:
  "stopContainers example_client ''default'' New
     = Returned (None, \<lparr>shutdownCh_closed = False, mu_locked = False,
         trace = [EvGo ''web1'' [ActKill SIGTERM, ActExit 1000000000, ActDelete, ActDone],
                  EvWgWait]\<rparr>)
   \<and> stop_unit (example_task\<lparr>Wait := Inr None\<rparr>) None
     = [ActKill SIGTERM, ActTimeout 10000000000, ActDone]"
  using
    stopContainers_unit [of example_client "''default''" "[example_container]"
      example_container example_task "Some 1000000000" New]
    stopContainers_unit [of
      "\<lparr>NamespaceList = Inr [''default''],
        Containers = (\<lambda>name. Inr [example_container\<lparr>c_Task := Inr (example_task\<lparr>Wait := Inr None\<rparr>)\<rparr>])\<rparr>"
      "''default''" "[example_container\<lparr>c_Task := Inr (example_task\<lparr>Wait := Inr None\<rparr>)\<rparr>]"
      "example_container\<lparr>c_Task := Inr (example_task\<lparr>Wait := Inr None\<rparr>)\<rparr>"
      "example_task\<lparr>Wait := Inr None\<rparr>" None New]
  by (simp add: New_def emit_def example_client_def example_container_def
      example_task_def stopContainers_def stopContainers_step_def stop_unit_def
      stop_unit_body_def select_exit_def Second_def)

text \<open>
  C7 as stated fails. In a shutdown pass over two namespaces with one container each,
  there are two stop operations, one after the other: stopContainers waits for the
  goroutine of the first namespace before Shutdown goes on to the second, so in no
  run are two goroutines at work at the same time.
\<close>

theorem stop_operations_of_two_namespaces_counterexample:
  "shutdown_events example_client3
     = [EvGo ''web1'' [ActKill SIGTERM, ActExit 1000000000, ActDelete, ActDone], EvWgWait,
        EvGo ''db1'' [ActKill SIGTERM, ActTimeout 10000000000, ActDone], EvWgWait]
   \<and> (\<forall>moves. length (running (exec example_client3 moves sys_New)) \<le> 1)"
proof
  show "shutdown_events example_client3
     = [EvGo ''web1'' [ActKill SIGTERM, ActExit 1000000000, ActDelete, ActDone], EvWgWait,
        EvGo ''db1'' [ActKill SIGTERM, ActTimeout 10000000000, ActDone], EvWgWait]"
    by (simp add: shutdown_events_def stop_events_def unit_events_def stopContainers_step_def
        stop_unit_def stop_unit_body_def select_exit_def Second_def example_client3_def
        example_container_def example_container2_def example_task_def)
  have "\<forall>name cs. Containers example_client3 name = Inr cs \<longrightarrow> length cs \<le> 1"
    by (auto simp: example_client3_def)
  then show "\<forall>moves. length (running (exec example_client3 moves sys_New)) \<le> 1"
    using one_running by blast
qed

text \<open>
  C7, amended. In every run of Run, Shutdown, the goroutines of stopContainers and any
  calls of Stop: Run never holds the mutex, and so is never in its reconcile pass, while
  Shutdown is between its \<open>Lock\<close> and its \<open>Unlock\<close>; the goroutines at work at the same
  time all belong to one call of stopContainers, that is to one namespace; and
  whenever stopContainers is about to start goroutines, the run can go on so that all
  of them are started and each has sent its SIGTERM and none is at its end: the stop
  operations of one namespace do run at the same time.
\<close>

theorem mutex_and_goroutines:
  "\<not> (run_holds (exec cl moves sys_New) \<and> in_shutdown (exec cl moves sys_New))
   \<and> (\<forall>g \<in> set (running (exec cl moves sys_New)).
        \<forall>g' \<in> set (running (exec cl moves sys_New)). fst g = fst g')
   \<and> (shutdown_at (exec cl moves sys_New) = ShStart \<and> \<not> sys_panicked (exec cl moves sys_New) \<longrightarrow>
        (\<exists>moves'.
           shutdown_at (exec cl (moves @ moves') sys_New) = ShWait
           \<and> started (exec cl (moves @ moves') sys_New)
               = started (exec cl moves sys_New)
                 @ map (Pair (wg_id (exec cl moves sys_New)))
                     (map tl (goroutines_of (to_start (exec cl moves sys_New))))
           \<and> (\<forall>x \<in> set (goroutines_of (to_start (exec cl moves sys_New))).
                 hd x = ActKill SIGTERM \<and> tl x \<noteq> [])))"
proof (intro conjI impI)
  have "mutex_inv (exec cl moves sys_New)"
    using mutex_inv_New by (rule mutex_inv_exec)
  then show "\<not> (run_holds (exec cl moves sys_New) \<and> in_shutdown (exec cl moves sys_New))"
    by (simp add: mutex_inv_def)
next
  have "wg_inv (exec cl moves sys_New)"
    using wg_inv_New by (rule wg_inv_exec)
  then show "\<forall>g \<in> set (running (exec cl moves sys_New)).
      \<forall>g' \<in> set (running (exec cl moves sys_New)). fst g = fst g'"
    using running_current by simp
next
  let ?s = "exec cl moves sys_New"
  let ?G = "goroutines_of (to_start ?s)"
  assume "shutdown_at ?s = ShStart \<and> \<not> sys_panicked ?s"
  then have at: "shutdown_at ?s = ShStart" and ok: "\<not> sys_panicked ?s"
    by simp_all
  have inv: "wg_inv ?s"
    using wg_inv_New by (rule wg_inv_exec)
  then have E: "\<forall>e \<in> set (to_start ?s). \<exists>cid task wait. e = EvGo cid (stop_unit task wait)"
    by (simp add: wg_inv_def)
  have first: "\<exists>rest. x = ActKill SIGTERM # rest \<and> rest \<noteq> []" if "x \<in> set ?G" for x
    using E that by (rule goroutines_signal_first)
  let ?s1 = "?s\<lparr>to_start := [], wg_counter := wg_counter ?s + length ?G,
                started := started ?s @ map (Pair (wg_id ?s)) ?G\<rparr>"
  let ?s2 = "?s1\<lparr>shutdown_at := ShWait\<rparr>"
  let ?m1 = "replicate (length (to_start ?s)) MoveShutdown"
  let ?m2 = "[MoveShutdown]"
  let ?m3 = "map MoveUnit [length (started ?s)..<length (started ?s) + length ?G]"
  have 1: "exec cl ?m1 ?s = ?s1"
    using at ok by (intro start_all) simp_all
  have 2: "exec cl ?m2 ?s1 = ?s2"
    using at ok by (simp add: exec_def step_def shutdown_step_def)
  have 3: "exec cl ?m3 ?s2
      = ?s2\<lparr>started := started ?s @ map (Pair (wg_id ?s)) (map tl (take (length ?G) ?G) @ drop (length ?G) ?G)\<rparr>"
  proof (rule signal_all)
    show "\<not> sys_panicked ?s2" using ok by simp
    show "started ?s2 = started ?s @ map (Pair (wg_id ?s)) ?G" by simp
    show "\<forall>x \<in> set ?G. \<exists>a rest. x = a # rest \<and> a \<noteq> ActDone"
      using first by fastforce
    show "length ?G \<le> length ?G" by simp
  qed
  have "exec cl (moves @ ?m1 @ ?m2 @ ?m3) sys_New
      = ?s2\<lparr>started := started ?s @ map (Pair (wg_id ?s)) (map tl (take (length ?G) ?G) @ drop (length ?G) ?G)\<rparr>"
    by (simp only: exec_append 1 2 3)
  then have "shutdown_at (exec cl (moves @ ?m1 @ ?m2 @ ?m3) sys_New) = ShWait
      \<and> started (exec cl (moves @ ?m1 @ ?m2 @ ?m3) sys_New)
          = started ?s @ map (Pair (wg_id ?s)) (map tl ?G)"
    by simp
  moreover have "\<forall>x \<in> set ?G. hd x = ActKill SIGTERM \<and> tl x \<noteq> []"
    using first by fastforce
  ultimately show "\<exists>moves'.
           shutdown_at (exec cl (moves @ moves') sys_New) = ShWait
           \<and> started (exec cl (moves @ moves') sys_New)
               = started ?s @ map (Pair (wg_id ?s)) (map tl ?G)
           \<and> (\<forall>x \<in> set ?G. hd x = ActKill SIGTERM \<and> tl x \<noteq> [])"
    by blast
qed

theorem mutex_and_goroutines_witness:
  "run_at (exec example_client2 [MoveRun, MoveShutdown, MoveRun, MoveShutdown, MoveRun] sys_New)
     = RunReconcile
   \<and> shutdown_at (exec example_client2 [MoveRun, MoveShutdown, MoveRun, MoveShutdown, MoveRun] sys_New)
     = ShLock
   \<and> \<not> in_shutdown (exec example_client2 [MoveRun, MoveShutdown, MoveRun, MoveShutdown, MoveRun] sys_New)
   \<and> shutdown_at (exec example_client2
        [MoveShutdown, MoveShutdown, MoveShutdown, MoveShutdown] sys_New) = ShStart
   \<and> \<not> sys_panicked (exec example_client2
        [MoveShutdown, MoveShutdown, MoveShutdown, MoveShutdown] sys_New)
   \<and> running (exec example_client2
        ([MoveShutdown, MoveShutdown, MoveShutdown, MoveShutdown]
         @ [MoveShutdown, MoveShutdown, MoveShutdown, MoveUnit 0, MoveUnit 1]) sys_New)
     = [(1, [ActExit 1000000000, ActDelete, ActDone]), (1, [ActTimeout 10000000000, ActDone])]"
proof -
  let ?m = "[MoveRun, MoveShutdown, MoveRun, MoveShutdown, MoveRun]"
  have a: "run_at (exec example_client2 ?m sys_New) = RunReconcile"
    by (simp add: example_sys_simps)
  have b: "shutdown_at (exec example_client2 ?m sys_New) = ShLock"
    by (simp add: example_sys_simps)
  have h: "run_holds (exec example_client2 ?m sys_New)"
    using a by (simp add: run_holds_def)
  have "\<not> (run_holds (exec example_client2 ?m sys_New) \<and> in_shutdown (exec example_client2 ?m sys_New))"
    using mutex_and_goroutines [of example_client2 ?m] by (rule conjunct1)
  with h have c: "\<not> in_shutdown (exec example_client2 ?m sys_New)"
    by simp
  have d: "shutdown_at (exec example_client2
        [MoveShutdown, MoveShutdown, MoveShutdown, MoveShutdown] sys_New) = ShStart"
    by (simp add: example_sys_simps)
  have e: "\<not> sys_panicked (exec example_client2
        [MoveShutdown, MoveShutdown, MoveShutdown, MoveShutdown] sys_New)"
    by (simp add: example_sys_simps)
  have f: "running (exec example_client2
        ([MoveShutdown, MoveShutdown, MoveShutdown, MoveShutdown]
         @ [MoveShutdown, MoveShutdown, MoveShutdown, MoveUnit 0, MoveUnit 1]) sys_New)
     = [(1, [ActExit 1000000000, ActDelete, ActDone]), (1, [ActTimeout 10000000000, ActDone])]"
    by (simp add: example_sys_simps)
  show ?thesis
    using a b c d e f by blast
qed

text \<open>
  C8. Run returns at the first iteration that finds the mutex free and the channel
  closed, and whenever Run returns it holds the mutex. After any further calls of Stop,
  Shutdown and Run the mutex is still held: a call of Shutdown then never returns but
  waits in \<open>Lock\<close>, and so does a further call of Run.
\<close>

theorem Run_returns_holding_mutex:
  "(\<not> mu_locked s \<and> shutdownCh_closed s \<longrightarrow>
      (\<exists>s1. Run (cl # ticks) interval s = RunReturned s1 \<and> mu_locked s1))
   \<and> (Run ticks interval s = RunReturned s' \<longrightarrow>
        mu_locked s'
        \<and> mu_locked (after_calls calls s')
        \<and> Shutdown cl' (after_calls calls s') = Blocked (after_calls calls s')
        \<and> (\<exists>s''. Run (cl' # ticks') interval' (after_calls calls s') = RunBlocked s''))"
proof (intro conjI impI)
  assume "\<not> mu_locked s \<and> shutdownCh_closed s"
  then show "\<exists>s1. Run (cl # ticks) interval s = RunReturned s1 \<and> mu_locked s1"
    by (simp add: Run_def Run_loop_exit del: Run_loop.simps)
next
  assume "Run ticks interval s = RunReturned s'"
  then show locked: "mu_locked s'"
    using Run_loop_returned unfolding Run_def by blast
  then show later: "mu_locked (after_calls calls s')"
    by (rule after_calls_locked)
  then show "Shutdown cl' (after_calls calls s') = Blocked (after_calls calls s')"
    by (rule Shutdown_blocked)
  show "\<exists>s''. Run (cl' # ticks') interval' (after_calls calls s') = RunBlocked s''"
    using later by (simp add: Run_def Run_loop_blocked del: Run_loop.simps)
qed

theorem Run_returns_holding_mutex_witness:
  "Run [example_client] 0 \<lparr>shutdownCh_closed = True, mu_locked = False, trace = [EvClose]\<rparr>
     = RunReturned \<lparr>shutdownCh_closed = True, mu_locked = True,
                    trace = [EvClose, EvSleep 10000000000, EvLock]\<rparr>
   \<and> Shutdown example_client
       \<lparr>shutdownCh_closed = True, mu_locked = True,
        trace = [EvClose, EvSleep 10000000000, EvLock]\<rparr>
     = Blocked \<lparr>shutdownCh_closed = True, mu_locked = True,
                trace = [EvClose, EvSleep 10000000000, EvLock]\<rparr>"
proof -
  have r: "Run [example_client] 0 \<lparr>shutdownCh_closed = True, mu_locked = False, trace = [EvClose]\<rparr>
     = RunReturned \<lparr>shutdownCh_closed = True, mu_locked = True,
                    trace = [EvClose, EvSleep 10000000000, EvLock]\<rparr>"
    by (simp add: Run_def mu_Lock_def emit_def Second_def)
  show ?thesis
    using r Run_returns_holding_mutex
      [where s = "\<lparr>shutdownCh_closed = True, mu_locked = False, trace = [EvClose]\<rparr>"
        and cl = example_client and ticks = "[example_client]" and interval = 0
        and s' = "\<lparr>shutdownCh_closed = True, mu_locked = True,
          trace = [EvClose, EvSleep 10000000000, EvLock]\<rparr>"
        and calls = "[]" and cl' = example_client and ticks' = "[]" and interval' = 0]
    by simp
qed

text \<open>
  C9. With the mutex free: after a Stop that returned, a second Stop panics with close
  of closed channel and so does a Shutdown, at its end; after a Shutdown that returned,
  a Stop and a second Shutdown panic likewise; and whenever the channel is already
  closed, Stop and Shutdown panic.
\<close>

theorem double_close_panics:
  assumes "\<not> mu_locked s"
  shows "(\<forall>s1. Stop s = Returned s1 \<longrightarrow>
            Stop s1 = Panicked CloseOfClosedChannel s1 \<and>
            (\<exists>s2. Shutdown cl s1 = Panicked CloseOfClosedChannel s2))
       \<and> (\<forall>s1. Shutdown cl s = Returned s1 \<longrightarrow>
            Stop s1 = Panicked CloseOfClosedChannel s1 \<and>
            (\<exists>s2. Shutdown cl' s1 = Panicked CloseOfClosedChannel s2))
       \<and> (shutdownCh_closed s \<longrightarrow>
            Stop s = Panicked CloseOfClosedChannel s \<and>
            (\<exists>s2. Shutdown cl s = Panicked CloseOfClosedChannel s2))"
proof (intro conjI allI impI)
  fix s1
  assume "Stop s = Returned s1"
  then have s1: "shutdownCh_closed s1" "\<not> mu_locked s1"
    using assms by (auto simp: Stop_def close_shutdownCh_def emit_def split: if_splits)
  from s1(1) show "Stop s1 = Panicked CloseOfClosedChannel s1"
    by (simp add: Stop_def close_shutdownCh_def)
  from s1 show "\<exists>s2. Shutdown cl s1 = Panicked CloseOfClosedChannel s2"
    using Shutdown_closed by blast
next
  fix s1
  assume r: "Shutdown cl s = Returned s1"
  have "\<not> shutdownCh_closed s"
  proof
    assume "shutdownCh_closed s"
    with assms obtain s' where "Shutdown cl s = Panicked CloseOfClosedChannel s'"
      using Shutdown_closed by blast
    with r show False by simp
  qed
  with assms obtain s' where "Shutdown cl s = Returned s'" "shutdownCh_closed s'" "\<not> mu_locked s'"
    using Shutdown_open by blast
  with r have s1: "shutdownCh_closed s1" "\<not> mu_locked s1" by simp_all
  from s1(1) show "Stop s1 = Panicked CloseOfClosedChannel s1"
    by (simp add: Stop_def close_shutdownCh_def)
  from s1 show "\<exists>s2. Shutdown cl' s1 = Panicked CloseOfClosedChannel s2"
    using Shutdown_closed by blast
next
  assume c: "shutdownCh_closed s"
  then show "Stop s = Panicked CloseOfClosedChannel s"
    by (simp add: Stop_def close_shutdownCh_def)
  from assms c show "\<exists>s2. Shutdown cl s = Panicked CloseOfClosedChannel s2"
    using Shutdown_closed by blast
qed

theorem double_close_panics_witness:
  "\<not> mu_locked New
   \<and> Stop New = Returned \<lparr>shutdownCh_closed = True, mu_locked = False, trace = [EvClose]\<rparr>
   \<and> Stop \<lparr>shutdownCh_closed = True, mu_locked = False, trace = [EvClose]\<rparr>
     = Panicked CloseOfClosedChannel
         \<lparr>shutdownCh_closed = True, mu_locked = False, trace = [EvClose]\<rparr>
   \<and> Shutdown example_client
       \<lparr>shutdownCh_closed = True, mu_locked = False, trace = [EvClose]\<rparr>
     = Panicked CloseOfClosedChannel
         \<lparr>shutdownCh_closed = True, mu_locked = False,
          trace = [EvClose, EvLock,
                   EvGo ''web1'' [ActKill SIGTERM, ActExit 1000000000, ActDelete, ActDone],
                   EvWgWait, EvUnlock]\<rparr>"
  using double_close_panics [of New example_client example_client]
  by (simp add: New_def Stop_def close_shutdownCh_def emit_def Shutdown_def mu_Lock_def
      mu_Unlock_def close_and_return_def example_client_def example_container_def
      example_task_def stopContainers_def stopContainers_step_def stop_unit_def
      stop_unit_body_def select_exit_def Second_def)

end
